theory Spec2Isabelle
  imports Complex_Main "HOL-Library.List_Lexorder" "HOL-Library.Char_ord"
begin

section \<open>The event-ingestion core of the WorkOS AuthKit component\<close>

text \<open>
  The theory embeds \<^verbatim>\<open>lib.ts\<close>: the mutation \<^verbatim>\<open>processEvent\<close>, the trigger
  \<^verbatim>\<open>enqueueWebhookEvent\<close>, the puller \<^verbatim>\<open>updateEvents\<close> and the reconciler
  \<^verbatim>\<open>backfillEvents\<close> with its queries and its checkpoint mutation. The sources hold the
  file in two revisions: \<^verbatim>\<open>src/component/lib.ts\<close>, and the one printed after the changelog
  and the developing guide, which gives \<^verbatim>\<open>enqueueWebhookEvent\<close>, \<^verbatim>\<open>updateEvents\<close> and
  \<^verbatim>\<open>processEvent\<close> the options \<^verbatim>\<open>initialRangeHours\<close> and \<^verbatim>\<open>createUserOnUpdate\<close> and ends
  before the reconciler. These three functions are embedded with the two options; with
  \<^verbatim>\<open>createUserOnUpdate\<close> unset, \<^verbatim>\<open>processEvent\<close> is the same in both revisions. The
  reconciler is that of \<^verbatim>\<open>src/component/lib.ts\<close>, which calls \<^verbatim>\<open>processEvent\<close> without the
  option.

  The Convex database is an explicit store of three tables, each a list of documents in
  insertion order; the remote feed, the work pool, the clock and the caller-supplied
  handler are parameters, since all four are outside the component.
\<close>

subsection \<open>Values\<close>

text \<open>
  A JSON value of a payload property. Numbers are integers here: no function of
  \<^verbatim>\<open>lib.ts\<close> computes with a property, they are only stored and copied.
\<close>

datatype jsvalue =
    JNull
  | JBool bool
  | JNum int
  | JStr string
  | JArr "jsvalue list"
  | JObj "(string \<times> jsvalue) list"

text \<open>
  The \<^verbatim>\<open>data\<close> of an event. \<^verbatim>\<open>processEvent\<close> reads two of its properties by name:
  \<^verbatim>\<open>data.id\<close> (a string in the SDK's type of every payload) and \<^verbatim>\<open>data.updatedAt\<close>
  (a string, or \<^verbatim>\<open>undefined\<close> on payloads without it: \<open>None\<close>). All other properties,
  \<^verbatim>\<open>object\<close> among them, are in \<open>data_props\<close>.
\<close>

record payload =
  data_id :: string
  data_updatedAt :: "string option"
  data_props :: "string \<rightharpoonup> jsvalue"

text \<open>The \<^verbatim>\<open>event\<close> argument of \<^verbatim>\<open>processEvent\<close>: \<^verbatim>\<open>{id, createdAt, event, data}\<close>.\<close>

record wevent =
  ev_id :: string
  ev_createdAt :: string
  ev_event :: string
  ev_data :: payload

subsection \<open>Documents and the store\<close>

text \<open>
  A document carries the system field \<^verbatim>\<open>_id\<close>; an \<^verbatim>\<open>events\<close> document also its
  \<^verbatim>\<open>_creationTime\<close>, which \<^verbatim>\<open>getCursor\<close>, \<^verbatim>\<open>getLastCheckpointedEvent\<close> and
  \<^verbatim>\<open>getMissingEventIds\<close> read.
\<close>

record event_doc =
  ed_id :: nat
  ed_creationTime :: nat
  eventId :: string
  event :: string
  updatedAt :: "string option"

record user_doc =
  ud_id :: nat
  ud_data :: payload

record sync_doc =
  sd_id :: nat
  sd_key :: string
  sd_value :: string

text \<open>
  A call of the remote feed,
  \<^verbatim>\<open>new WorkOS(apiKey).events.listEvents({events, after, rangeStart})\<close>, and the page it
  answers with, \<^verbatim>\<open>{data, listMetadata: {after}}\<close>. The code sends \<^verbatim>\<open>rangeStart\<close> as
  the ISO-8601 string of an instant; the request holds the instant, in milliseconds since
  the epoch. \<^verbatim>\<open>backfillEvents\<close> sends no \<^verbatim>\<open>rangeStart\<close>.
\<close>

record request =
  rq_apiKey :: string
  rq_events :: "string list"
  rq_after :: "string option"
  rq_rangeStart :: "int option"

record page =
  pg_data :: "wevent list"
  pg_after :: "string option"

datatype level = LOG | WARN | ERROR

datatype console_arg = Txt string | Num nat | Strs "string list" | Obj wevent

text \<open>
  A call of the caller-supplied handler: the handle, the event whose \<^verbatim>\<open>event\<close> and
  \<^verbatim>\<open>data\<close> it is called with, and whether the call threw.
\<close>

type_synonym handler_call = "string \<times> wevent \<times> bool"

text \<open>
  The store: the three tables, the two counters from which the host assigns \<^verbatim>\<open>_id\<close> and
  \<^verbatim>\<open>_creationTime\<close> at an insert, and three logs of what the code does outside the tables:
  the console lines, the calls of the handler, and the requests sent to the feed. The
  tables and the counters are transactional: a mutation that throws leaves them as they
  were. The logs are not: a line printed, or a call made, by a mutation that throws later
  has still happened.
\<close>

record store =
  events :: "event_doc list"
  users :: "user_doc list"
  syncState :: "sync_doc list"
  nextId :: nat
  clock :: nat
  console :: "(level \<times> console_arg list) list"
  handlerCalls :: "handler_call list"
  requests :: "request list"

datatype error =
    NotUnique       \<comment> \<open>\<^verbatim>\<open>.unique()\<close> found more than one document\<close>
  | FeedError       \<comment> \<open>\<^verbatim>\<open>listEvents\<close> failed\<close>
  | HandlerError    \<comment> \<open>the handler threw, or its handle resolves to no function\<close>
  | RangeError      \<comment> \<open>\<^verbatim>\<open>toISOString\<close> of an invalid date\<close>

text \<open>
  The handler is a mutation of the host application, which \<^verbatim>\<open>processEvent\<close> runs inside
  its own transaction. It has no access to the three tables; what the component sees of it
  is whether the call returns or throws. That is a parameter of the model: given the calls
  made so far, the handle and the event, \<open>True\<close> when this call throws.
\<close>

type_synonym handler = "handler_call list \<Rightarrow> string \<Rightarrow> wevent \<Rightarrow> bool"

datatype log_level = DEBUG

subsection \<open>Database and console primitives\<close>

text \<open>\<^verbatim>\<open>.unique()\<close>: \<^verbatim>\<open>null\<close> for no match, the document for one, an exception for more.\<close>

fun unique :: "'a list \<Rightarrow> error + 'a option" where
  "unique [] = Inr None"
| "unique [x] = Inr (Some x)"
| "unique (x # y # zs) = Inl NotUnique"

definition print :: "level \<Rightarrow> console_arg list \<Rightarrow> store \<Rightarrow> store" where
  "print l as s = s\<lparr>console := console s @ [(l, as)]\<rparr>"

text \<open>
  A string is truthy when it is not empty; an optional string or boolean is falsy when it
  is \<^verbatim>\<open>undefined\<close>.
\<close>

definition truthy :: "string \<Rightarrow> bool" where
  "truthy x = (x \<noteq> [])"

definition truthy_opt :: "string option \<Rightarrow> bool" where
  "truthy_opt c = (case c of None \<Rightarrow> False | Some x \<Rightarrow> truthy x)"

definition truthy_bool :: "bool option \<Rightarrow> bool" where
  "truthy_bool c = (c = Some True)"

text \<open>
  The transaction of a mutation that throws is rolled back: the tables and counters of
  \<open>s\<close>, the store before the call, with the logs of \<open>s'\<close>, the store at the throw.
\<close>

definition rollback :: "store \<Rightarrow> store \<Rightarrow> store" where
  "rollback s s' =
     s'\<lparr>events := events s, users := users s, syncState := syncState s,
        nextId := nextId s, clock := clock s\<rparr>"

text \<open>
  \<^verbatim>\<open>new Date(t)\<close> for a number \<open>t\<close>: the time value is \<open>t\<close> truncated towards zero, and
  the date is invalid (\<open>None\<close>) beyond 8.64e15 milliseconds from the epoch, where
  \<^verbatim>\<open>toISOString\<close> throws. Numbers are reals here: rounding, \<^verbatim>\<open>NaN\<close> and the infinities of
  doubles are left out.
\<close>

definition to_integer :: "real \<Rightarrow> int" where
  "to_integer t = (if 0 \<le> t then \<lfloor>t\<rfloor> else \<lceil>t\<rceil>)"

definition time_clip :: "real \<Rightarrow> int option" where
  "time_clip t = (if \<bar>t\<bar> > 8640000000000000 then None else Some (to_integer t))"

text \<open>
  \<^verbatim>\<open>a >= b\<close> on two values that are strings or \<^verbatim>\<open>undefined\<close>: strings compare by code
  units, lexicographically; a comparison with \<^verbatim>\<open>undefined\<close> is false.
\<close>

fun js_ge :: "string option \<Rightarrow> string option \<Rightarrow> bool" where
  "js_ge (Some a) (Some b) = (b \<le> a)"
| "js_ge _ _ = False"

text \<open>\<^verbatim>\<open>omit(data, keys)\<close>, for keys among the properties.\<close>

definition omit :: "payload \<Rightarrow> string list \<Rightarrow> payload" where
  "omit d ks = d\<lparr>data_props := data_props d |` (- set ks)\<rparr>"

definition insert_events :: "string \<Rightarrow> string \<Rightarrow> string option \<Rightarrow> store \<Rightarrow> store" where
  "insert_events i t u s =
     s\<lparr>events := events s @
          [\<lparr>ed_id = nextId s, ed_creationTime = clock s, eventId = i, event = t, updatedAt = u\<rparr>],
       nextId := Suc (nextId s),
       clock := Suc (clock s)\<rparr>"

definition insert_users :: "payload \<Rightarrow> store \<Rightarrow> store" where
  "insert_users d s =
     s\<lparr>users := users s @ [\<lparr>ud_id = nextId s, ud_data = d\<rparr>], nextId := Suc (nextId s)\<rparr>"

text \<open>
  \<^verbatim>\<open>ctx.db.patch\<close> is a shallow merge: a property of the patch replaces the stored one, a
  property the patch does not carry is kept.
\<close>

definition patch_payload :: "payload \<Rightarrow> payload \<Rightarrow> payload" where
  "patch_payload old new =
     \<lparr>data_id = data_id new,
      data_updatedAt = (case data_updatedAt new of None \<Rightarrow> data_updatedAt old | Some t \<Rightarrow> Some t),
      data_props = data_props old ++ data_props new\<rparr>"

definition patch_users :: "nat \<Rightarrow> payload \<Rightarrow> store \<Rightarrow> store" where
  "patch_users i d s =
     s\<lparr>users := map (\<lambda>u. if ud_id u = i then u\<lparr>ud_data := patch_payload (ud_data u) d\<rparr> else u)
                     (users s)\<rparr>"

definition delete_users :: "nat \<Rightarrow> store \<Rightarrow> store" where
  "delete_users i s = s\<lparr>users := filter (\<lambda>u. ud_id u \<noteq> i) (users s)\<rparr>"

text \<open>The index lookups \<^verbatim>\<open>withIndex("id", q => q.eq("id", x))\<close> and its like.\<close>

definition users_by_id :: "string \<Rightarrow> store \<Rightarrow> user_doc list" where
  "users_by_id i s = filter (\<lambda>u. data_id (ud_data u) = i) (users s)"

definition events_by_eventId :: "string \<Rightarrow> store \<Rightarrow> event_doc list" where
  "events_by_eventId i s = filter (\<lambda>d. eventId d = i) (events s)"

definition insert_syncState :: "string \<Rightarrow> string \<Rightarrow> store \<Rightarrow> store" where
  "insert_syncState k v s =
     s\<lparr>syncState := syncState s @ [\<lparr>sd_id = nextId s, sd_key = k, sd_value = v\<rparr>],
       nextId := Suc (nextId s)\<rparr>"

definition patch_syncState :: "nat \<Rightarrow> string \<Rightarrow> store \<Rightarrow> store" where
  "patch_syncState i v s =
     s\<lparr>syncState := map (\<lambda>d. if sd_id d = i then d\<lparr>sd_value := v\<rparr> else d) (syncState s)\<rparr>"

definition syncState_by_key :: "string \<Rightarrow> store \<Rightarrow> sync_doc list" where
  "syncState_by_key k s = filter (\<lambda>d. sd_key d = k) (syncState s)"

subsection \<open>processEvent\<close>

record processEvent_args =
  pe_event :: wevent
  pe_logLevel :: "log_level option"
  pe_onEventHandle :: "string option"
  pe_createUserOnUpdate :: "bool option"

text \<open>The three arms of the \<^verbatim>\<open>switch\<close>; an event of any other type falls through it.\<close>

definition case_user_created :: "wevent \<Rightarrow> store \<Rightarrow> error + store" where
  "case_user_created e s =
     (let data = omit (ev_data e) [''object''] in
      case unique (users_by_id (data_id data) s) of
        Inl err \<Rightarrow> Inl err
      | Inr (Some existingUser) \<Rightarrow>
          Inr (print WARN [Txt ''user already exists'', Txt (data_id data)] s)
      | Inr None \<Rightarrow> Inr (insert_users data s))"

definition case_user_updated :: "bool option \<Rightarrow> wevent \<Rightarrow> store \<Rightarrow> error + store" where
  "case_user_updated createUserOnUpdate e s =
     (let data = omit (ev_data e) [''object''] in
      case unique (users_by_id (data_id data) s) of
        Inl err \<Rightarrow> Inl err
      | Inr None \<Rightarrow>
          if truthy_bool createUserOnUpdate
          then Inr (insert_users data
                 (print WARN [Txt ''user not found for update, creating:'', Txt (data_id data)] s))
          else Inr (print ERROR [Txt ''user not found'', Txt (data_id data)] s)
      | Inr (Some user) \<Rightarrow>
          if js_ge (data_updatedAt (ud_data user)) (data_updatedAt data)
          then Inr (print WARN
                 [Txt (''user already updated for event '' @ ev_id e @ '', skipping'')] s)
          else Inr (patch_users (ud_id user) data s))"

definition case_user_deleted :: "wevent \<Rightarrow> store \<Rightarrow> error + store" where
  "case_user_deleted e s =
     (let data = omit (ev_data e) [''object''] in
      case unique (users_by_id (data_id data) s) of
        Inl err \<Rightarrow> Inl err
      | Inr None \<Rightarrow> Inr (print WARN [Txt ''user not found'', Txt (data_id data)] s)
      | Inr (Some user) \<Rightarrow> Inr (delete_users (ud_id user) s))"

definition switch_event :: "bool option \<Rightarrow> wevent \<Rightarrow> store \<Rightarrow> error + store" where
  "switch_event createUserOnUpdate e s =
     (if ev_event e = ''user.created'' then case_user_created e s
      else if ev_event e = ''user.updated'' then case_user_updated createUserOnUpdate e s
      else if ev_event e = ''user.deleted'' then case_user_deleted e s
      else Inr s)"

text \<open>
  The call of the handler, when \<^verbatim>\<open>args.onEventHandle\<close> is truthy. The call is awaited and
  nothing catches what it throws: when it throws, \<^verbatim>\<open>processEvent\<close> throws, and the host
  rolls back all that the mutation has written. \<open>s\<close> is the store the mutation started
  from, \<open>s2\<close> the store it has reached.
\<close>

definition run_handler ::
  "handler \<Rightarrow> string option \<Rightarrow> wevent \<Rightarrow> store \<Rightarrow> store \<Rightarrow> (error \<times> store) + store" where
  "run_handler throws h e s s2 =
     (case h of
        None \<Rightarrow> Inr s2
      | Some f \<Rightarrow>
          if truthy f
          then if throws (handlerCalls s2) f e
               then Inl (HandlerError,
                         rollback s (s2\<lparr>handlerCalls := handlerCalls s2 @ [(f, e, True)]\<rparr>))
               else Inr (s2\<lparr>handlerCalls := handlerCalls s2 @ [(f, e, False)]\<rparr>)
          else Inr s2)"

text \<open>
  \<^verbatim>\<open>processEvent\<close>. \<open>Inr\<close> is the store the mutation commits. \<open>Inl\<close> is an exception,
  with the store it leaves: the tables as they were before the call, and the logs.
\<close>

definition processEvent ::
  "handler \<Rightarrow> processEvent_args \<Rightarrow> store \<Rightarrow> (error \<times> store) + store" where
  "processEvent throws args s =
     (let e = pe_event args;
          s0 = (if pe_logLevel args = Some DEBUG
                then print LOG [Txt ''processing event'', Obj e] s else s)
      in case unique (events_by_eventId (ev_id e) s0) of
           Inl err \<Rightarrow> Inl (err, s0)
         | Inr (Some dbEvent) \<Rightarrow>
             Inr (print LOG [Txt ''event already processed'', Txt (ev_id e)] s0)
         | Inr None \<Rightarrow>
             (case switch_event (pe_createUserOnUpdate args) e
                     (insert_events (ev_id e) (ev_event e) (data_updatedAt (ev_data e)) s0) of
                Inl err \<Rightarrow> Inl (err, s0)
              | Inr s2 \<Rightarrow> run_handler throws (pe_onEventHandle args) e s s2))"

subsection \<open>enqueueWebhookEvent\<close>

record updateEvents_args =
  ue_apiKey :: string
  ue_onEventHandle :: "string option"
  ue_eventTypes :: "string list option"
  ue_logLevel :: "log_level option"
  ue_initialRangeHours :: "real option"
  ue_createUserOnUpdate :: "bool option"

record enqueueWebhookEvent_args =
  wh_apiKey :: string
  wh_eventId :: string
  wh_event :: string
  wh_updatedAt :: "string option"
  wh_onEventHandle :: "string option"
  wh_eventTypes :: "string list option"
  wh_logLevel :: "log_level option"
  wh_initialRangeHours :: "real option"
  wh_createUserOnUpdate :: "bool option"

text \<open>
  The work pool is a component of its own, with its own state \<open>'pool\<close>; its two
  operations are parameters: \<open>cancelAll\<close>, and \<open>enqueueAction\<close> for the action
  \<^verbatim>\<open>internal.lib.updateEvents\<close> with the arguments given. The context of the mutation is
  the store and the state of the pool.
\<close>

definition enqueueWebhookEvent ::
  "('pool \<Rightarrow> 'pool) \<Rightarrow> (updateEvents_args \<Rightarrow> 'pool \<Rightarrow> 'pool) \<Rightarrow>
   enqueueWebhookEvent_args \<Rightarrow> store \<times> 'pool \<Rightarrow> store \<times> 'pool" where
  "enqueueWebhookEvent cancelAll enqueueAction args ctx =
     (fst ctx,
      enqueueAction
        \<lparr>ue_apiKey = wh_apiKey args,
         ue_onEventHandle = wh_onEventHandle args,
         ue_eventTypes = wh_eventTypes args,
         ue_logLevel = wh_logLevel args,
         ue_initialRangeHours = wh_initialRangeHours args,
         ue_createUserOnUpdate = wh_createUserOnUpdate args\<rparr>
        (cancelAll (snd ctx)))"

subsection \<open>getCursor and updateEvents\<close>

text \<open>
  \<^verbatim>\<open>query("events").order("desc").first()\<close>: the document that is last in the default
  order, by \<^verbatim>\<open>_creationTime\<close> and then \<^verbatim>\<open>_id\<close>.
\<close>

fun first_desc :: "event_doc list \<Rightarrow> event_doc option" where
  "first_desc [] = None"
| "first_desc (d # ds) =
     (case first_desc ds of
        None \<Rightarrow> Some d
      | Some m \<Rightarrow>
          if ed_creationTime m < ed_creationTime d
             \<or> (ed_creationTime m = ed_creationTime d \<and> ed_id m < ed_id d)
          then Some d else Some m)"

definition getCursor :: "store \<Rightarrow> string option" where
  "getCursor s = map_option eventId (first_desc (events s))"

definition default_eventTypes :: "string list option \<Rightarrow> string list" where
  "default_eventTypes extra =
     [''user.created'', ''user.updated'', ''user.deleted'']
       @ (case extra of None \<Rightarrow> [] | Some ts \<Rightarrow> ts)"

text \<open>
  An action is not a transaction: every \<^verbatim>\<open>runMutation\<close> commits on its own, so an
  action that throws leaves the store of its last committed mutation. The result of an
  action is the exception, if any, and that store. The \<^verbatim>\<open>for\<close> loop over a page:
\<close>

fun process_page ::
  "handler \<Rightarrow> updateEvents_args \<Rightarrow> wevent list \<Rightarrow> store \<Rightarrow> error option \<times> store" where
  "process_page throws args [] s = (None, s)"
| "process_page throws args (e # es) s =
     (case processEvent throws
             \<lparr>pe_event = e, pe_logLevel = ue_logLevel args,
              pe_onEventHandle = ue_onEventHandle args,
              pe_createUserOnUpdate = ue_createUserOnUpdate args\<rparr> s of
        Inl (err, s') \<Rightarrow> (Some err, s')
      | Inr s' \<Rightarrow> process_page throws args es s')"

definition send :: "request \<Rightarrow> store \<Rightarrow> store" where
  "send rq s = s\<lparr>requests := requests s @ [rq]\<rparr>"

text \<open>
  The \<^verbatim>\<open>do ... while (nextCursor)\<close> loop, with its two variables \<^verbatim>\<open>nextCursor\<close> and
  \<^verbatim>\<open>rangeStart\<close>. The feed decides how long it runs, so the loop takes fuel, and \<open>None\<close>
  is a run that has not ended when the fuel is spent.
\<close>

fun updateEvents_loop ::
  "handler \<Rightarrow> (request \<Rightarrow> page option) \<Rightarrow> string list \<Rightarrow> updateEvents_args \<Rightarrow>
   nat \<Rightarrow> string option \<Rightarrow> int option \<Rightarrow> store \<Rightarrow> (error option \<times> store) option" where
  "updateEvents_loop throws listEvents eventTypes args 0 nextCursor rangeStart s = None"
| "updateEvents_loop throws listEvents eventTypes args (Suc n) nextCursor rangeStart s =
     (let rq = \<lparr>rq_apiKey = ue_apiKey args, rq_events = eventTypes, rq_after = nextCursor,
                 rq_rangeStart = rangeStart\<rparr>;
          s1 = send rq s
      in case listEvents rq of
           None \<Rightarrow> Some (Some FeedError, s1)
         | Some pg \<Rightarrow>
             (case process_page throws args (pg_data pg) s1 of
                (Some err, s2) \<Rightarrow> Some (Some err, s2)
              | (None, s2) \<Rightarrow>
                  if truthy_opt (pg_after pg)
                  then updateEvents_loop throws listEvents eventTypes args n (pg_after pg) None s2
                  else Some (None, s2)))"

text \<open>\<^verbatim>\<open>updateEvents\<close>, run when the clock \<^verbatim>\<open>Date.now()\<close> reads \<open>now\<close>.\<close>

definition updateEvents ::
  "handler \<Rightarrow> (request \<Rightarrow> page option) \<Rightarrow> int \<Rightarrow> nat \<Rightarrow> updateEvents_args \<Rightarrow> store \<Rightarrow>
   (error option \<times> store) option" where
  "updateEvents throws listEvents now fuel args s =
     (let cursor = getCursor s;
          nextCursor = cursor;
          eventTypes = default_eventTypes (ue_eventTypes args);
          rangeHours = (case ue_initialRangeHours args of None \<Rightarrow> 168 | Some x \<Rightarrow> x)
      in if truthy_opt nextCursor
         then updateEvents_loop throws listEvents eventTypes args fuel nextCursor None s
         else (case time_clip (of_int now - 1000 * 60 * 60 * rangeHours) of
                 None \<Rightarrow> Some (Some RangeError, s)
               | Some rangeStart \<Rightarrow>
                   updateEvents_loop throws listEvents eventTypes args fuel nextCursor
                     (Some rangeStart) s))"

subsection \<open>The checkpoint and backfillEvents\<close>

definition getLastCheckpointedEvent :: "store \<Rightarrow> error + (string \<times> nat) option" where
  "getLastCheckpointedEvent s =
     (case unique (syncState_by_key ''lastCheckpointedEventId'' s) of
        Inl err \<Rightarrow> Inl err
      | Inr None \<Rightarrow> Inr None
      | Inr (Some state) \<Rightarrow>
          (case unique (events_by_eventId (sd_value state) s) of
             Inl err \<Rightarrow> Inl err
           | Inr None \<Rightarrow> Inr None
           | Inr (Some ev) \<Rightarrow> Inr (Some (eventId ev, ed_creationTime ev))))"

definition getMissingEventIds :: "string list \<Rightarrow> nat option \<Rightarrow> store \<Rightarrow> string list" where
  "getMissingEventIds eventIds after s =
     (let existingEventIds =
            map eventId
              (filter (\<lambda>d. (case after of None \<Rightarrow> 0 | Some a \<Rightarrow> a) < ed_creationTime d)
                 (events s))
      in filter (\<lambda>i. i \<notin> set existingEventIds) eventIds)"

definition updateLastCheckpointedEventId :: "string \<Rightarrow> store \<Rightarrow> error + store" where
  "updateLastCheckpointedEventId i s =
     (case unique (syncState_by_key ''lastCheckpointedEventId'' s) of
        Inl err \<Rightarrow> Inl err
      | Inr (Some existing) \<Rightarrow> Inr (patch_syncState (sd_id existing) i s)
      | Inr None \<Rightarrow> Inr (insert_syncState ''lastCheckpointedEventId'' i s))"

record backfillEvents_args =
  bf_apiKey :: string
  bf_onEventHandle :: "string option"
  bf_eventTypes :: "string list option"
  bf_logLevel :: "log_level option"

text \<open>The variables of the loop, which are also the result of the action.\<close>

record backfill_vars =
  processed :: nat
  skipped :: nat
  lastEventId :: "string option"

fun backfill_page ::
  "handler \<Rightarrow> backfillEvents_args \<Rightarrow> string list \<Rightarrow> wevent list \<Rightarrow> backfill_vars \<Rightarrow> store \<Rightarrow>
   error option \<times> backfill_vars \<times> store" where
  "backfill_page throws args missingEventIds [] v s = (None, v, s)"
| "backfill_page throws args missingEventIds (e # es) v s =
     (if ev_id e \<notin> set missingEventIds
      then backfill_page throws args missingEventIds es
             (v\<lparr>skipped := Suc (skipped v), lastEventId := Some (ev_id e)\<rparr>) s
      else case processEvent throws
                  \<lparr>pe_event = e, pe_logLevel = bf_logLevel args,
                   pe_onEventHandle = bf_onEventHandle args,
                   pe_createUserOnUpdate = None\<rparr> s of
             Inl (err, s') \<Rightarrow> (Some err, v, s')
           | Inr s' \<Rightarrow>
               backfill_page throws args missingEventIds es
                 (v\<lparr>lastEventId := Some (ev_id e), processed := Suc (processed v)\<rparr>) s')"

fun backfill_loop ::
  "handler \<Rightarrow> (request \<Rightarrow> page option) \<Rightarrow> string list \<Rightarrow> backfillEvents_args \<Rightarrow> nat \<Rightarrow>
   nat \<Rightarrow> string option \<Rightarrow> backfill_vars \<Rightarrow> store \<Rightarrow>
   (error option \<times> backfill_vars \<times> store) option" where
  "backfill_loop throws listEvents eventTypes args lastVerifiedCreationTime 0 nextCursor v s
     = None"
| "backfill_loop throws listEvents eventTypes args lastVerifiedCreationTime (Suc n) nextCursor v s =
     (let rq = \<lparr>rq_apiKey = bf_apiKey args, rq_events = eventTypes, rq_after = nextCursor,
                 rq_rangeStart = None\<rparr>;
          s1 = send rq s
      in case listEvents rq of
           None \<Rightarrow> Some (Some FeedError, v, s1)
         | Some pg \<Rightarrow>
             if pg_data pg = [] then Some (None, v, s1)
             else
              (let eventIds = map ev_id (pg_data pg);
                   missingEventIdsArray =
                     getMissingEventIds eventIds (Some lastVerifiedCreationTime) s1;
                   s2 = (if bf_logLevel args = Some DEBUG
                         then print LOG
                                [Txt ''Batch: '', Num (length (pg_data pg)), Txt '' events, '',
                                 Num (length (remdups missingEventIdsArray)), Txt '' missing''] s1
                         else s1)
               in (case backfill_page throws args missingEventIdsArray (pg_data pg) v s2 of
                     (Some err, v', s3) \<Rightarrow> Some (Some err, v', s3)
                   | (None, v', s3) \<Rightarrow>
                       (case pg_after pg of
                          None \<Rightarrow> Some (None, v', s3)
                        | Some c \<Rightarrow>
                            if truthy c
                            then backfill_loop throws listEvents eventTypes args
                                   lastVerifiedCreationTime n (Some c) v' s3
                            else Some (None, v', s3)))))"

text \<open>
  \<^verbatim>\<open>backfillEvents\<close>: the outcome (an exception, or the three counters it returns) and
  the store it leaves.
\<close>

definition backfillEvents ::
  "handler \<Rightarrow> (request \<Rightarrow> page option) \<Rightarrow> nat \<Rightarrow> backfillEvents_args \<Rightarrow> store \<Rightarrow>
   ((error + backfill_vars) \<times> store) option" where
  "backfillEvents throws listEvents fuel args s =
     (case getLastCheckpointedEvent s of
        Inl err \<Rightarrow> Some (Inl err, s)
      | Inr lastCheckpointedEvent \<Rightarrow>
         (let lastVerifiedEventId = map_option fst lastCheckpointedEvent;
              lastVerifiedCreationTime =
                (case lastCheckpointedEvent of None \<Rightarrow> 0 | Some c \<Rightarrow> snd c);
              eventTypes = default_eventTypes (bf_eventTypes args);
              s0 = (if bf_logLevel args = Some DEBUG
                    then print LOG [Txt ''Event types:'', Strs eventTypes]
                           (print LOG
                              [Txt (''Starting backfill, lastVerifiedEventId: '' @
                                 (case lastVerifiedEventId of
                                    None \<Rightarrow> ''none (full scan)'' | Some i \<Rightarrow> i))] s)
                    else s)
          in (case backfill_loop throws listEvents eventTypes args lastVerifiedCreationTime fuel
                     lastVerifiedEventId
                     \<lparr>processed = 0, skipped = 0, lastEventId = None\<rparr> s0 of
               None \<Rightarrow> None
             | Some (Some err, v, s1) \<Rightarrow> Some (Inl err, s1)
             | Some (None, v, s1) \<Rightarrow>
                 (case (case lastEventId v of
                          None \<Rightarrow> Inr s1
                        | Some i \<Rightarrow>
                            if truthy i then updateLastCheckpointedEventId i s1 else Inr s1) of
                    Inl err \<Rightarrow> Some (Inl err, s1)
                  | Inr s2 \<Rightarrow>
                      Some (Inr v,
                        if bf_logLevel args = Some DEBUG
                        then print LOG
                               [Txt ''Backfill complete. Processed: '', Num (processed v),
                                Txt '', Skipped: '', Num (skipped v), Txt '', Last event: '',
                                Txt (case lastEventId v of None \<Rightarrow> ''null'' | Some i \<Rightarrow> i)] s2
                        else s2)))))"

subsection \<open>Stores the code produces, and runs of mutations\<close>

text \<open>
  What the code keeps of a store: an event id is recorded once, a user id is mirrored
  once, and the \<^verbatim>\<open>_id\<close> of a user document is its own and was given out by the host.
\<close>

definition wf_store :: "store \<Rightarrow> bool" where
  "wf_store s \<longleftrightarrow>
     distinct (map eventId (events s)) \<and>
     distinct (map (\<lambda>u. data_id (ud_data u)) (users s)) \<and>
     distinct (map ud_id (users s)) \<and>
     (\<forall>u \<in> set (users s). ud_id u < nextId s)"

text \<open>
  The store after a mutation has run, whether it returned or threw, and whether it
  returned.
\<close>

definition commit :: "(store \<Rightarrow> (error \<times> store) + store) \<Rightarrow> store \<Rightarrow> store" where
  "commit m s = (case m s of Inl (err, s') \<Rightarrow> s' | Inr s' \<Rightarrow> s')"

definition returns :: "(store \<Rightarrow> (error \<times> store) + store) \<Rightarrow> store \<Rightarrow> bool" where
  "returns m s = (case m s of Inl x \<Rightarrow> False | Inr s' \<Rightarrow> True)"

definition processEvents :: "handler \<Rightarrow> processEvent_args list \<Rightarrow> store \<Rightarrow> store" where
  "processEvents throws as s = fold (\<lambda>a. commit (processEvent throws a)) as s"

text \<open>
  The calls of the handler for the event id \<open>i\<close>, and those among them that returned.
\<close>

definition calls_for :: "string \<Rightarrow> store \<Rightarrow> handler_call list" where
  "calls_for i s = filter (\<lambda>c. ev_id (fst (snd c)) = i) (handlerCalls s)"

definition returned_calls :: "store \<Rightarrow> handler_call list" where
  "returned_calls s = filter (\<lambda>c. \<not> snd (snd c)) (handlerCalls s)"

text \<open>
  No event id has two calls of the handler that returned, and every call that returned
  is for a recorded event.
\<close>

definition handler_once :: "store \<Rightarrow> bool" where
  "handler_once s \<longleftrightarrow>
     distinct (map (\<lambda>c. ev_id (fst (snd c))) (returned_calls s)) \<and>
     (\<forall>c \<in> set (returned_calls s). events_by_eventId (ev_id (fst (snd c))) s \<noteq> [])"

subsection \<open>What an application writes to the mirror\<close>

text \<open>
  The records an application of \<^verbatim>\<open>processEvent\<close> writes: the user documents of the store
  it leaves that the store before did not hold. Each is listed with its user id, its
  \<^verbatim>\<open>_id\<close> and the \<^verbatim>\<open>updatedAt\<close> of the event, when the event has one. \<open>history\<close>
  collects them over a run of applications.
\<close>

definition applied_by ::
  "handler \<Rightarrow> processEvent_args \<Rightarrow> store \<Rightarrow> (string \<times> nat \<times> string) list" where
  "applied_by throws a s =
     (case data_updatedAt (ev_data (pe_event a)) of
        None \<Rightarrow> []
      | Some t \<Rightarrow>
          map (\<lambda>u. (data_id (ud_data u), ud_id u, t))
            (filter (\<lambda>u. u \<notin> set (users s)) (users (commit (processEvent throws a) s))))"

fun history ::
  "handler \<Rightarrow> processEvent_args list \<Rightarrow> store \<Rightarrow> (string \<times> nat \<times> string) list" where
  "history throws [] s = []"
| "history throws (a # as) s =
     applied_by throws a s @ history throws as (commit (processEvent throws a) s)"

text \<open>
  The stored \<^verbatim>\<open>updatedAt\<close> of a mirrored user is \<^verbatim>\<open>>=\<close> that of every event written:
  \<open>lww_by_id\<close> counts the events written under the same user id, \<open>lww_by_record\<close> those
  written to the same document. \<open>recorded_before\<close> says that the documents of a
  history were given their \<^verbatim>\<open>_id\<close> before now.
\<close>

definition lww_by_id :: "(string \<times> nat \<times> string) list \<Rightarrow> store \<Rightarrow> bool" where
  "lww_by_id H s \<longleftrightarrow>
     (\<forall>u \<in> set (users s). \<forall>(i, k, t) \<in> set H.
        i = data_id (ud_data u) \<longrightarrow> js_ge (data_updatedAt (ud_data u)) (Some t))"

definition lww_by_record :: "(string \<times> nat \<times> string) list \<Rightarrow> store \<Rightarrow> bool" where
  "lww_by_record H s \<longleftrightarrow>
     (\<forall>u \<in> set (users s). \<forall>(i, k, t) \<in> set H.
        k = ud_id u \<longrightarrow> js_ge (data_updatedAt (ud_data u)) (Some t))"

definition recorded_before :: "(string \<times> nat \<times> string) list \<Rightarrow> store \<Rightarrow> bool" where
  "recorded_before H s \<longleftrightarrow> (\<forall>(i, k, t) \<in> set H. k < nextId s)"

text \<open>
  What a \<^verbatim>\<open>user.updated\<close> event does to one user document, and to the table. The patch
  is merged in when the document is the event's user and its \<^verbatim>\<open>updatedAt\<close> is not
  \<^verbatim>\<open>>=\<close> the event's. When the table holds no document of the event's user and
  \<^verbatim>\<open>createUserOnUpdate\<close> is truthy, a document is added under the \<^verbatim>\<open>_id\<close> \<open>k\<close>.
\<close>

definition lww_patch1 :: "payload \<Rightarrow> user_doc \<Rightarrow> user_doc" where
  "lww_patch1 d v =
     (if data_id (ud_data v) = data_id d
           \<and> \<not> js_ge (data_updatedAt (ud_data v)) (data_updatedAt d)
      then v\<lparr>ud_data := patch_payload (ud_data v) (omit d [''object''])\<rparr> else v)"

definition lww_patch :: "payload \<Rightarrow> user_doc list \<Rightarrow> user_doc list" where
  "lww_patch d us = map (lww_patch1 d) us"

definition lww_apply :: "bool option \<Rightarrow> payload \<Rightarrow> nat \<Rightarrow> user_doc list \<Rightarrow> user_doc list" where
  "lww_apply c d k us =
     (if filter (\<lambda>u. data_id (ud_data u) = data_id d) us = [] \<and> truthy_bool c
      then us @ [\<lparr>ud_id = k, ud_data = omit d [''object'']\<rparr>]
      else lww_patch d us)"

subsection \<open>The walk of the feed, and the time the checkpoint refers to\<close>

text \<open>
  The events of the pages a reconciler run visits, from the cursor \<open>c\<close> on, in order:
  it follows the continuation tokens and stops at an empty page, at a page without a
  truthy token, or (with \<open>None\<close>) when the feed fails or the fuel is spent.
\<close>

fun feed_walk ::
  "(request \<Rightarrow> page option) \<Rightarrow> string \<Rightarrow> string list \<Rightarrow> nat \<Rightarrow> string option \<Rightarrow>
   wevent list option" where
  "feed_walk listEvents k types 0 c = None"
| "feed_walk listEvents k types (Suc n) c =
     (case listEvents \<lparr>rq_apiKey = k, rq_events = types, rq_after = c, rq_rangeStart = None\<rparr> of
        None \<Rightarrow> None
      | Some pg \<Rightarrow>
          if pg_data pg = [] then Some []
          else (case pg_after pg of
                  None \<Rightarrow> Some (pg_data pg)
                | Some c' \<Rightarrow>
                    if truthy c'
                    then map_option ((@) (pg_data pg)) (feed_walk listEvents k types n (Some c'))
                    else Some (pg_data pg)))"

text \<open>
  \<open>checkpoint_time\<close> is \<^verbatim>\<open>lastCheckpointedEvent?._creationTime ?? 0\<close>, the creation time
  of the event the checkpoint refers to.
\<close>

definition checkpoint_time :: "store \<Rightarrow> nat" where
  "checkpoint_time s =
     (case getLastCheckpointedEvent s of Inr (Some c) \<Rightarrow> snd c | _ \<Rightarrow> 0)"

subsection \<open>Examples\<close>

definition store0 :: store where
  "store0 =
     \<lparr>events = [], users = [], syncState = [], nextId = 0, clock = 1, console = [],
      handlerCalls = [], requests = []\<rparr>"

text \<open>A handler that always returns, and one that always throws.\<close>

definition handler_ok :: handler where
  "handler_ok calls f e = False"

definition handler_throws :: handler where
  "handler_throws calls f e = True"

definition user1 :: "string \<Rightarrow> (string \<rightharpoonup> jsvalue) \<Rightarrow> payload" where
  "user1 t ps = \<lparr>data_id = ''user_01'', data_updatedAt = Some t, data_props = ps\<rparr>"

definition ev :: "string \<Rightarrow> string \<Rightarrow> payload \<Rightarrow> wevent" where
  "ev i t d = \<lparr>ev_id = i, ev_createdAt = ''2024-01-01T00:00:00.000Z'', ev_event = t, ev_data = d\<rparr>"

definition pe :: "wevent \<Rightarrow> processEvent_args" where
  "pe e = \<lparr>pe_event = e, pe_logLevel = None, pe_onEventHandle = Some ''handle'',
           pe_createUserOnUpdate = None\<rparr>"

definition created1 :: wevent where
  "created1 = ev ''event_01'' ''user.created'' (user1 ''2024-01-01'' [''object'' \<mapsto> JStr ''user''])"

definition updated1 :: wevent where
  "updated1 = ev ''event_02'' ''user.updated'' (user1 ''2024-01-02'' [''object'' \<mapsto> JStr ''user''])"

definition webhook :: "string \<Rightarrow> string \<Rightarrow> string option \<Rightarrow> enqueueWebhookEvent_args" where
  "webhook i t u =
     \<lparr>wh_apiKey = ''sk_test'', wh_eventId = i, wh_event = t, wh_updatedAt = u,
      wh_onEventHandle = Some ''handle'', wh_eventTypes = None, wh_logLevel = None,
      wh_initialRangeHours = None, wh_createUserOnUpdate = None\<rparr>"

definition created5 :: wevent where
  "created5 = ev ''event_03'' ''user.created'' (user1 ''2024-01-05'' [''object'' \<mapsto> JStr ''user''])"

definition deleted1 :: wevent where
  "deleted1 = ev ''event_04'' ''user.deleted'' (user1 ''2024-01-05'' [''object'' \<mapsto> JStr ''user''])"

definition upd_ann :: wevent where
  "upd_ann = ev ''event_05'' ''user.updated''
     (user1 ''2024-01-02'' [''object'' \<mapsto> JStr ''user'', ''firstName'' \<mapsto> JStr ''Ann''])"

definition upd_plain :: wevent where
  "upd_plain = ev ''event_06'' ''user.updated'' (user1 ''2024-01-03'' [''object'' \<mapsto> JStr ''user''])"

definition store1 :: store where
  "store1 = commit (processEvent handler_ok (pe created1)) store0"

definition upd_stale :: wevent where
  "upd_stale = ev ''event_07'' ''user.updated'' (user1 ''2023-12-31'' [''object'' \<mapsto> JStr ''user''])"

definition old_event :: wevent where
  "old_event =
     \<lparr>ev_id = ''event_00'', ev_createdAt = ''1999-12-31T00:00:00.000Z'',
      ev_event = ''user.created'',
      ev_data = user1 ''1999-12-31'' [''object'' \<mapsto> JStr ''user'']\<rparr>"

definition feed_old :: "request \<Rightarrow> page option" where
  "feed_old rq =
     Some (case rq_after rq of
             None \<Rightarrow> \<lparr>pg_data = [old_event], pg_after = None\<rparr>
           | Some c \<Rightarrow> \<lparr>pg_data = [], pg_after = None\<rparr>)"

definition puller_args :: updateEvents_args where
  "puller_args =
     \<lparr>ue_apiKey = ''sk_test'', ue_onEventHandle = None, ue_eventTypes = None,
      ue_logLevel = None, ue_initialRangeHours = None, ue_createUserOnUpdate = None\<rparr>"

text \<open>The instant 2024-01-01T00:00:00.000Z, and the instant 168 hours before it.\<close>

definition now1 :: int where
  "now1 = 1704067200000"

definition week_before_now1 :: int where
  "week_before_now1 = 1703462400000"

text \<open>
  A feed that holds a fixed list of events and answers a request with one page: the
  events after the cursor whose type is asked for. \<open>feed_pages\<close> cuts the list into
  pages of one event, each with the id of its event as continuation token.
\<close>

definition after_cursor :: "string option \<Rightarrow> wevent list \<Rightarrow> wevent list" where
  "after_cursor c es =
     (case c of None \<Rightarrow> es | Some i \<Rightarrow> tl (dropWhile (\<lambda>e. ev_id e \<noteq> i) es))"

definition feed_of :: "wevent list \<Rightarrow> request \<Rightarrow> page option" where
  "feed_of es rq =
     Some \<lparr>pg_data = filter (\<lambda>e. ev_event e \<in> set (rq_events rq)) (after_cursor (rq_after rq) es),
           pg_after = None\<rparr>"


definition backfill_args :: "string list option \<Rightarrow> backfillEvents_args" where
  "backfill_args ts =
     \<lparr>bf_apiKey = ''sk_test'', bf_onEventHandle = None, bf_eventTypes = ts, bf_logLevel = None\<rparr>"

definition org_b :: wevent where
  "org_b = ev ''event_b'' ''organization.created''
     \<lparr>data_id = ''org_01'', data_updatedAt = Some ''2024-02-01'',
      data_props = [''object'' \<mapsto> JStr ''organization'']\<rparr>"

definition org_c :: wevent where
  "org_c = ev ''event_c'' ''organization.updated''
     \<lparr>data_id = ''org_01'', data_updatedAt = Some ''2024-02-02'',
      data_props = [''object'' \<mapsto> JStr ''organization'']\<rparr>"

definition store_c :: store where
  "store_c =
     \<lparr>events = [\<lparr>ed_id = 0, ed_creationTime = 1, eventId = ''event_c'',
                   event = ''organization.updated'', updatedAt = Some ''2024-02-02''\<rparr>],
      users = [], syncState = [], nextId = 1, clock = 2, console = [], handlerCalls = [],
      requests = [\<lparr>rq_apiKey = ''sk_test'',
                    rq_events = [''user.created'', ''user.updated'', ''user.deleted'',
                                 ''organization.updated''],
                    rq_after = None, rq_rangeStart = Some week_before_now1\<rparr>]\<rparr>"

definition store_cb :: store where
  "store_cb =
     \<lparr>events = [\<lparr>ed_id = 0, ed_creationTime = 1, eventId = ''event_c'',
                   event = ''organization.updated'', updatedAt = Some ''2024-02-02''\<rparr>,
                \<lparr>ed_id = 1, ed_creationTime = 2, eventId = ''event_b'',
                   event = ''organization.created'', updatedAt = Some ''2024-02-01''\<rparr>],
      users = [],
      syncState = [\<lparr>sd_id = 2, sd_key = ''lastCheckpointedEventId'', sd_value = ''event_b''\<rparr>],
      nextId = 3, clock = 3, console = [], handlerCalls = [],
      requests = [\<lparr>rq_apiKey = ''sk_test'',
                    rq_events = [''user.created'', ''user.updated'', ''user.deleted'',
                                 ''organization.updated''],
                    rq_after = None, rq_rangeStart = Some week_before_now1\<rparr>,
                  \<lparr>rq_apiKey = ''sk_test'',
                    rq_events = [''user.created'', ''user.updated'', ''user.deleted'',
                                 ''organization.created''],
                    rq_after = None, rq_rangeStart = None\<rparr>]\<rparr>"

definition store_cbc :: store where
  "store_cbc =
     store_cb\<lparr>
       syncState := [\<lparr>sd_id = 2, sd_key = ''lastCheckpointedEventId'', sd_value = ''event_c''\<rparr>],
       console := [(LOG, [Txt ''event already processed'', Txt ''event_c''])],
       requests := requests store_cb @
          [\<lparr>rq_apiKey = ''sk_test'',
             rq_events = [''user.created'', ''user.updated'', ''user.deleted'',
                          ''organization.updated''],
             rq_after = Some ''event_b'', rq_rangeStart = None\<rparr>]\<rparr>"

definition upd_dup :: wevent where
  "upd_dup = ev ''event_02'' ''user.updated'' (user1 ''2024-01-03'' [''object'' \<mapsto> JStr ''user''])"

definition store2 :: store where
  "store2 = processEvents handler_ok [pe upd_plain, pe created1] store0"

section \<open>Properties\<close>

subsection \<open>Lookups\<close>

lemma unique_Some_iff: "unique xs = Inr (Some x) \<longleftrightarrow> xs = [x]"
  by (cases xs rule: unique.cases) auto

lemma unique_None_iff: "unique xs = Inr None \<longleftrightarrow> xs = []"
  by (cases xs rule: unique.cases) auto

lemma unique_Inl_iff: "unique xs = Inl err \<longleftrightarrow> err = NotUnique \<and> 2 \<le> length xs"
  by (cases xs rule: unique.cases) auto

lemma find_None_filter: "find P xs = None \<longleftrightarrow> filter P xs = []"
  by (induction xs) auto

lemma find_Some_in: "find P xs = Some x \<Longrightarrow> x \<in> set xs \<and> P x"
  by (induction xs) (auto split: if_splits)

lemma unique_filter_distinct:
  "distinct (map f xs) \<Longrightarrow> unique (filter (\<lambda>x. f x = k) xs) = Inr (find (\<lambda>x. f x = k) xs)"
proof (induction xs)
  case Nil
  then show ?case by simp
next
  case (Cons x xs)
  show ?case
  proof (cases "f x = k")
    case True
    with Cons.prems have "filter (\<lambda>x. f x = k) xs = []"
      by (auto simp: filter_empty_conv image_iff)
    with True show ?thesis by simp
  next
    case False
    with Cons show ?thesis by simp
  qed
qed

lemma wf_users_lookup:
  assumes "wf_store s"
  shows "unique (users_by_id i s) = Inr (find (\<lambda>u. data_id (ud_data u) = i) (users s))"
  using assms unique_filter_distinct[of "\<lambda>u. data_id (ud_data u)" "users s" i]
  by (simp add: wf_store_def users_by_id_def)

lemma wf_events_lookup:
  assumes "wf_store s"
  shows "unique (events_by_eventId i s) = Inr (find (\<lambda>d. eventId d = i) (events s))"
  using assms unique_filter_distinct[of eventId "events s" i]
  by (simp add: wf_store_def events_by_eventId_def)

lemma omit_id [simp]:
  "data_id (omit d ks) = data_id d" "data_updatedAt (omit d ks) = data_updatedAt d"
  by (simp_all add: omit_def)

subsection \<open>What one application of processEvent changes\<close>

lemma switch_event_frame:
  "switch_event c e s = Inr s' \<Longrightarrow>
     events s' = events s \<and> syncState s' = syncState s \<and> handlerCalls s' = handlerCalls s
     \<and> clock s' = clock s \<and> requests s' = requests s"
  by (auto simp: switch_event_def case_user_created_def case_user_updated_def
      case_user_deleted_def Let_def print_def insert_users_def patch_users_def delete_users_def
      split: if_splits sum.splits option.splits)

lemma run_handler_Inr:
  assumes "run_handler throws h e s s2 = Inr s'"
  shows "events s' = events s2 \<and> users s' = users s2 \<and> syncState s' = syncState s2
     \<and> nextId s' = nextId s2 \<and> clock s' = clock s2 \<and> requests s' = requests s2
     \<and> console s' = console s2
     \<and> (handlerCalls s' = handlerCalls s2
         \<or> (\<exists>f. h = Some f \<and> truthy f \<and> \<not> throws (handlerCalls s2) f e
                \<and> handlerCalls s' = handlerCalls s2 @ [(f, e, False)]))"
  using assms by (auto simp: run_handler_def split: option.splits if_splits)

lemma run_handler_Inl:
  assumes "run_handler throws h e s s2 = Inl (err, s')"
  shows "err = HandlerError \<and> events s' = events s \<and> users s' = users s
     \<and> syncState s' = syncState s \<and> nextId s' = nextId s \<and> clock s' = clock s
     \<and> requests s' = requests s2 \<and> console s' = console s2
     \<and> (\<exists>f. h = Some f \<and> truthy f \<and> throws (handlerCalls s2) f e
              \<and> handlerCalls s' = handlerCalls s2 @ [(f, e, True)])"
  using assms by (auto simp: run_handler_def rollback_def split: option.splits if_splits)

text \<open>The two ways in which \<^verbatim>\<open>processEvent\<close> returns, and the two in which it throws.\<close>

lemma processEvent_Inr_cases:
  assumes "processEvent throws args s = Inr s1"
  obtains (recorded) d where
      "unique (events_by_eventId (ev_id (pe_event args)) s) = Inr (Some d)"
      "events s1 = events s" "users s1 = users s" "syncState s1 = syncState s"
      "nextId s1 = nextId s" "clock s1 = clock s" "requests s1 = requests s"
      "handlerCalls s1 = handlerCalls s"
  | (fresh) s0 s2 where
      "events_by_eventId (ev_id (pe_event args)) s = []"
      "events s0 = events s" "users s0 = users s" "syncState s0 = syncState s"
      "nextId s0 = nextId s" "clock s0 = clock s" "requests s0 = requests s"
      "handlerCalls s0 = handlerCalls s" "wf_store s0 = wf_store s"
      "switch_event (pe_createUserOnUpdate args) (pe_event args)
         (insert_events (ev_id (pe_event args)) (ev_event (pe_event args))
            (data_updatedAt (ev_data (pe_event args))) s0) = Inr s2"
      "run_handler throws (pe_onEventHandle args) (pe_event args) s s2 = Inr s1"
proof -
  define s0 where "s0 = (if pe_logLevel args = Some DEBUG
                then print LOG [Txt ''processing event'', Obj (pe_event args)] s else s)"
  have s0: "events s0 = events s" "users s0 = users s" "syncState s0 = syncState s"
      "nextId s0 = nextId s" "clock s0 = clock s" "requests s0 = requests s"
      "handlerCalls s0 = handlerCalls s" "wf_store s0 = wf_store s"
    by (simp_all add: s0_def print_def wf_store_def)
  have lk: "events_by_eventId i s0 = events_by_eventId i s" for i
    by (simp add: events_by_eventId_def s0)
  show thesis
  proof (cases "unique (events_by_eventId (ev_id (pe_event args)) s)")
    case (Inl err)
    with assms show ?thesis
      by (simp add: processEvent_def Let_def s0_def[symmetric] lk)
  next
    case (Inr r)
    show ?thesis
    proof (cases r)
      case (Some d)
      with Inr assms have "s1 = print LOG [Txt ''event already processed'', Txt (ev_id (pe_event args))] s0"
        by (simp add: processEvent_def Let_def s0_def[symmetric] lk)
      with s0 Inr Some show ?thesis
        by (intro recorded[of d]) (simp_all add: print_def)
    next
      case None
      with Inr have emp: "events_by_eventId (ev_id (pe_event args)) s = []"
        by (simp add: unique_None_iff)
      let ?sw = "switch_event (pe_createUserOnUpdate args) (pe_event args)
         (insert_events (ev_id (pe_event args)) (ev_event (pe_event args))
            (data_updatedAt (ev_data (pe_event args))) s0)"
      show ?thesis
      proof (cases ?sw)
        case (Inl err)
        with Inr None assms show ?thesis
          by (simp add: processEvent_def Let_def s0_def[symmetric] lk)
      next
        case sw: (Inr s2)
        with Inr None assms
        have "run_handler throws (pe_onEventHandle args) (pe_event args) s s2 = Inr s1"
          by (simp add: processEvent_def Let_def s0_def[symmetric] lk)
        with emp s0 sw show ?thesis by (intro fresh[of s0 s2])
      qed
    qed
  qed
qed

lemma processEvent_Inl_cases:
  assumes "processEvent throws args s = Inl (err, s1)"
  obtains (lookup) "err = NotUnique"
      "events s1 = events s" "users s1 = users s" "syncState s1 = syncState s"
      "nextId s1 = nextId s" "clock s1 = clock s" "requests s1 = requests s"
      "handlerCalls s1 = handlerCalls s"
  | (handler) s0 s2 where
      "err = HandlerError"
      "events_by_eventId (ev_id (pe_event args)) s = []"
      "events s0 = events s" "users s0 = users s" "syncState s0 = syncState s"
      "nextId s0 = nextId s" "clock s0 = clock s" "requests s0 = requests s"
      "handlerCalls s0 = handlerCalls s" "wf_store s0 = wf_store s"
      "switch_event (pe_createUserOnUpdate args) (pe_event args)
         (insert_events (ev_id (pe_event args)) (ev_event (pe_event args))
            (data_updatedAt (ev_data (pe_event args))) s0) = Inr s2"
      "run_handler throws (pe_onEventHandle args) (pe_event args) s s2 = Inl (err, s1)"
proof -
  define s0 where "s0 = (if pe_logLevel args = Some DEBUG
                then print LOG [Txt ''processing event'', Obj (pe_event args)] s else s)"
  have s0: "events s0 = events s" "users s0 = users s" "syncState s0 = syncState s"
      "nextId s0 = nextId s" "clock s0 = clock s" "requests s0 = requests s"
      "handlerCalls s0 = handlerCalls s" "wf_store s0 = wf_store s"
    by (simp_all add: s0_def print_def wf_store_def)
  have lk: "events_by_eventId i s0 = events_by_eventId i s" for i
    by (simp add: events_by_eventId_def s0)
  have arm: "switch_event c e t = Inl x \<Longrightarrow> x = NotUnique" for c e t x
    by (auto simp: switch_event_def case_user_created_def case_user_updated_def
        case_user_deleted_def Let_def unique_Inl_iff split: if_splits sum.splits option.splits)
  show thesis
  proof (cases "unique (events_by_eventId (ev_id (pe_event args)) s)")
    case (Inl x)
    with assms have "err = x" "s1 = s0"
      by (simp_all add: processEvent_def Let_def s0_def[symmetric] lk)
    with Inl s0 show ?thesis by (intro lookup) (simp_all add: unique_Inl_iff)
  next
    case (Inr r)
    show ?thesis
    proof (cases r)
      case (Some d)
      with Inr assms show ?thesis
        by (simp add: processEvent_def Let_def s0_def[symmetric] lk)
    next
      case None
      with Inr have emp: "events_by_eventId (ev_id (pe_event args)) s = []"
        by (simp add: unique_None_iff)
      let ?sw = "switch_event (pe_createUserOnUpdate args) (pe_event args)
         (insert_events (ev_id (pe_event args)) (ev_event (pe_event args))
            (data_updatedAt (ev_data (pe_event args))) s0)"
      show ?thesis
      proof (cases ?sw)
        case (Inl x)
        with Inr None assms have "err = x" "s1 = s0"
          by (simp_all add: processEvent_def Let_def s0_def[symmetric] lk)
        with arm[OF Inl] s0 show ?thesis by (intro lookup) simp_all
      next
        case sw: (Inr s2)
        with Inr None assms
        have rh: "run_handler throws (pe_onEventHandle args) (pe_event args) s s2 = Inl (err, s1)"
          by (simp add: processEvent_def Let_def s0_def[symmetric] lk)
        from run_handler_Inl[OF rh] have "err = HandlerError" by simp
        with emp s0 sw rh show ?thesis by (intro handler[of s0 s2])
      qed
    qed
  qed
qed

lemma processEvent_Inl:
  assumes "processEvent throws args s = Inl (err, s1)"
  shows "events s1 = events s \<and> users s1 = users s \<and> syncState s1 = syncState s
     \<and> nextId s1 = nextId s \<and> clock s1 = clock s \<and> requests s1 = requests s
     \<and> (handlerCalls s1 = handlerCalls s
         \<or> (\<exists>f. handlerCalls s1 = handlerCalls s @ [(f, pe_event args, True)]))"
  using assms
proof (cases rule: processEvent_Inl_cases)
  case lookup
  then show ?thesis by simp
next
  case (handler s0 s2)
  from run_handler_Inl[OF handler(12)] switch_event_frame[OF handler(11)] handler(3-9)
  show ?thesis by (auto simp: insert_events_def)
qed

lemma processEvent_recorded:
  assumes "unique (events_by_eventId (ev_id (pe_event args)) s) = Inr (Some d)"
  shows "\<exists>s'. processEvent throws args s = Inr s' \<and> events s' = events s \<and> users s' = users s
     \<and> syncState s' = syncState s \<and> handlerCalls s' = handlerCalls s
     \<and> nextId s' = nextId s \<and> clock s' = clock s"
  using assms by (simp add: processEvent_def Let_def print_def events_by_eventId_def)

lemma processEvent_events:
  assumes "processEvent throws args s = Inr s1"
  shows "events s1 = events s \<and> events_by_eventId (ev_id (pe_event args)) s \<noteq> [] \<or>
         (events_by_eventId (ev_id (pe_event args)) s = [] \<and>
          (\<exists>d. events s1 = events s @ [d] \<and> eventId d = ev_id (pe_event args)
                \<and> ed_creationTime d = clock s))"
  using assms
proof (cases rule: processEvent_Inr_cases)
  case (recorded d)
  then show ?thesis by (auto simp: unique_Some_iff)
next
  case (fresh s0 s2)
  from run_handler_Inr[OF fresh(11)] switch_event_frame[OF fresh(10)] fresh(1-8)
  show ?thesis by (simp add: insert_events_def)
qed

lemma processEvent_handlerCalls:
  assumes "processEvent throws args s = Inr s1"
  shows "handlerCalls s1 = handlerCalls s \<or>
     (events_by_eventId (ev_id (pe_event args)) s = [] \<and>
      (\<exists>f. handlerCalls s1 = handlerCalls s @ [(f, pe_event args, False)]))"
  using assms
proof (cases rule: processEvent_Inr_cases)
  case (recorded d)
  then show ?thesis by simp
next
  case (fresh s0 s2)
  from run_handler_Inr[OF fresh(11)] switch_event_frame[OF fresh(10)] fresh(1-8)
  show ?thesis by (auto simp: insert_events_def)
qed

lemma processEvent_frame:
  assumes "processEvent throws args s = Inr s1"
  shows "syncState s1 = syncState s \<and> requests s1 = requests s \<and> nextId s \<le> nextId s1"
  using assms
proof (cases rule: processEvent_Inr_cases)
  case (recorded d)
  then show ?thesis by simp
next
  case (fresh s0 s2)
  have "nextId t \<le> nextId t'" if "switch_event c e t = Inr t'" for c e t t'
    using that
    by (auto simp: switch_event_def case_user_created_def case_user_updated_def
      case_user_deleted_def Let_def print_def insert_users_def patch_users_def delete_users_def
      split: if_splits sum.splits option.splits)
  from this[OF fresh(10)] run_handler_Inr[OF fresh(11)] switch_event_frame[OF fresh(10)] fresh(1-8)
  show ?thesis by (simp add: insert_events_def)
qed

lemma processEvent_twice:
  assumes "processEvent throws args s = Inr s1" "ev_id (pe_event args') = ev_id (pe_event args)"
  shows "\<exists>s2. processEvent throws' args' s1 = Inr s2 \<and> events s2 = events s1 \<and> users s2 = users s1
     \<and> syncState s2 = syncState s1 \<and> handlerCalls s2 = handlerCalls s1
     \<and> length (events_by_eventId (ev_id (pe_event args)) s2) = 1"
proof -
  let ?i = "ev_id (pe_event args)"
  from processEvent_events[OF assms(1)]
  have "\<exists>d. events_by_eventId ?i s1 = [d]"
  proof
    assume a: "events s1 = events s \<and> events_by_eventId ?i s \<noteq> []"
    from assms(1) obtain d where "unique (events_by_eventId ?i s) = Inr (Some d)"
      using a by (cases rule: processEvent_Inr_cases) auto
    with a show ?thesis by (simp add: unique_Some_iff events_by_eventId_def)
  next
    assume "events_by_eventId ?i s = [] \<and>
          (\<exists>d. events s1 = events s @ [d] \<and> eventId d = ?i \<and> ed_creationTime d = clock s)"
    then show ?thesis by (auto simp: events_by_eventId_def)
  qed
  then obtain d where d: "events_by_eventId ?i s1 = [d]" by blast
  then have "unique (events_by_eventId (ev_id (pe_event args')) s1) = Inr (Some d)"
    using assms(2) by simp
  from processEvent_recorded[OF this, of throws'] d show ?thesis
    by (auto simp: events_by_eventId_def)
qed

subsection \<open>Well-formed stores stay well-formed\<close>

lemma wf_store_cong:
  "events s' = events s \<Longrightarrow> users s' = users s \<Longrightarrow> nextId s' = nextId s \<Longrightarrow>
     wf_store s' = wf_store s"
  by (simp add: wf_store_def)

lemma print_tables [simp]:
  "events (print l as s) = events s" "users (print l as s) = users s"
  "syncState (print l as s) = syncState s" "nextId (print l as s) = nextId s"
  "clock (print l as s) = clock s" "handlerCalls (print l as s) = handlerCalls s"
  "requests (print l as s) = requests s"
  by (simp_all add: print_def)

lemma wf_print [simp]: "wf_store (print l as s) = wf_store s"
  by (simp add: wf_store_def)

lemma wf_insert_events:
  "wf_store s \<Longrightarrow> events_by_eventId i s = [] \<Longrightarrow> wf_store (insert_events i t u s)"
  by (auto simp: wf_store_def insert_events_def events_by_eventId_def filter_empty_conv
      less_Suc_eq)

lemma wf_insert_users:
  "wf_store s \<Longrightarrow> users_by_id (data_id d) s = [] \<Longrightarrow> wf_store (insert_users d s)"
  by (fastforce simp: wf_store_def insert_users_def users_by_id_def filter_empty_conv
      less_Suc_eq)

lemma wf_delete_users: "wf_store s \<Longrightarrow> wf_store (delete_users i s)"
  by (auto simp: wf_store_def delete_users_def distinct_map_filter)

lemma distinct_map_eq:
  "distinct (map f us) \<Longrightarrow> u \<in> set us \<Longrightarrow> v \<in> set us \<Longrightarrow> f u = f v \<Longrightarrow> u = v"
  by (auto simp: distinct_map dest: inj_onD)

lemma distinct_ud_id_eq:
  "distinct (map ud_id us) \<Longrightarrow> u \<in> set us \<Longrightarrow> v \<in> set us \<Longrightarrow> ud_id u = ud_id v \<Longrightarrow> u = v"
  by (rule distinct_map_eq)

lemma patch_users_ids:
  assumes "distinct (map ud_id us)" "u \<in> set us" "data_id d = data_id (ud_data u)"
  shows "map (\<lambda>v. data_id (ud_data v))
           (map (\<lambda>v. if ud_id v = ud_id u then v\<lparr>ud_data := patch_payload (ud_data v) d\<rparr> else v) us)
       = map (\<lambda>v. data_id (ud_data v)) us"
proof -
  from assms(1,2) have "\<And>v. v \<in> set us \<Longrightarrow> ud_id v = ud_id u \<Longrightarrow> v = u"
    by (auto dest: distinct_ud_id_eq)
  with assms(3) show ?thesis by (auto simp: patch_payload_def)
qed

lemma wf_patch_users:
  assumes "wf_store s" "u \<in> set (users s)" "data_id d = data_id (ud_data u)"
  shows "wf_store (patch_users (ud_id u) d s)"
proof -
  have "map ud_id (map (\<lambda>v. if ud_id v = ud_id u
            then v\<lparr>ud_data := patch_payload (ud_data v) d\<rparr> else v) (users s))
        = map ud_id (users s)"
    by (induction "users s") auto
  with assms patch_users_ids[of "users s" u d] show ?thesis
    by (auto simp: wf_store_def patch_users_def simp del: map_map)
qed

lemma switch_event_wf:
  assumes "wf_store s"
  shows "\<exists>s'. switch_event c e s = Inr s' \<and> wf_store s'"
proof -
  let ?i = "data_id (ev_data e)"
  have cr: "\<exists>s'. case_user_created e s = Inr s' \<and> wf_store s'"
    using assms wf_users_lookup[OF assms, of ?i]
    by (auto simp: case_user_created_def Let_def find_None_filter users_by_id_def
        intro!: wf_insert_users split: option.splits)
  have "wf_store (insert_users (omit (ev_data e) [''object''])
          (print WARN [Txt ''user not found for update, creating:'', Txt ?i] s))"
    if "find (\<lambda>u. data_id (ud_data u) = ?i) (users s) = None"
    using that assms
    by (intro wf_insert_users) (simp_all add: users_by_id_def find_None_filter)
  then have u: "\<exists>s'. case_user_updated c e s = Inr s' \<and> wf_store s'"
    using assms wf_users_lookup[OF assms, of ?i]
    by (auto simp: case_user_updated_def Let_def dest!: find_Some_in
        intro!: wf_patch_users split: option.splits)
  have d: "\<exists>s'. case_user_deleted e s = Inr s' \<and> wf_store s'"
    using assms wf_users_lookup[OF assms, of ?i]
    by (auto simp: case_user_deleted_def Let_def intro!: wf_delete_users split: option.splits)
  from cr u d assms show ?thesis by (simp add: switch_event_def)
qed

lemma processEvent_Inr_wf:
  assumes "wf_store s" "processEvent throws args s = Inr s'"
  shows "wf_store s'"
  using assms(2)
proof (cases rule: processEvent_Inr_cases)
  case (recorded d)
  with assms(1) wf_store_cong[of s' s] show ?thesis by simp
next
  case (fresh s0 s2)
  from fresh(1,2) have "events_by_eventId (ev_id (pe_event args)) s0 = []"
    by (simp add: events_by_eventId_def)
  moreover from fresh(9) assms(1) have "wf_store s0" by simp
  ultimately have "wf_store (insert_events (ev_id (pe_event args)) (ev_event (pe_event args))
            (data_updatedAt (ev_data (pe_event args))) s0)"
    by (intro wf_insert_events)
  from switch_event_wf[OF this, of "pe_createUserOnUpdate args" "pe_event args"] fresh(10)
  have "wf_store s2" by simp
  with run_handler_Inr[OF fresh(11)] wf_store_cong[of s' s2] show ?thesis by simp
qed

lemma processEvent_Inl_wf:
  assumes "wf_store s" "processEvent throws args s = Inl (err, s')"
  shows "wf_store s'"
  using processEvent_Inl[OF assms(2)] assms(1) wf_store_cong[of s' s] by simp

text \<open>
  On a well-formed store \<^verbatim>\<open>processEvent\<close> returns, unless the event is not yet recorded
  and the handler throws.
\<close>

lemma processEvent_wf:
  assumes "wf_store s"
  shows "(\<exists>s'. processEvent throws args s = Inr s' \<and> wf_store s')
       \<or> (\<exists>s' f. processEvent throws args s = Inl (HandlerError, s') \<and> wf_store s'
             \<and> events_by_eventId (ev_id (pe_event args)) s = []
             \<and> pe_onEventHandle args = Some f \<and> truthy f
             \<and> throws (handlerCalls s) f (pe_event args))"
proof -
  define s0 where "s0 = (if pe_logLevel args = Some DEBUG
                then print LOG [Txt ''processing event'', Obj (pe_event args)] s else s)"
  have wf0: "wf_store s0" using assms by (simp add: s0_def)
  have s0: "events s0 = events s" "handlerCalls s0 = handlerCalls s"
    by (simp_all add: s0_def print_def)
  let ?e = "pe_event args"
  let ?i = "ev_id ?e"
  show ?thesis
  proof (cases "find (\<lambda>d. eventId d = ?i) (events s0)")
    case (Some d)
    with wf_events_lookup[OF wf0, of ?i] wf0 show ?thesis
      by (simp add: processEvent_def Let_def s0_def[symmetric])
  next
    case None
    then have emp: "events_by_eventId ?i s0 = []" "events_by_eventId ?i s = []"
      by (simp_all add: find_None_filter events_by_eventId_def s0)
    let ?t = "insert_events ?i (ev_event ?e) (data_updatedAt (ev_data ?e)) s0"
    from wf_insert_events[OF wf0 emp(1)] switch_event_wf
    obtain s2 where s2: "switch_event (pe_createUserOnUpdate args) ?e ?t = Inr s2" "wf_store s2"
      by blast
    from switch_event_frame[OF s2(1)] have hc: "handlerCalls s2 = handlerCalls s"
      by (simp add: insert_events_def s0)
    have pe: "processEvent throws args s = run_handler throws (pe_onEventHandle args) ?e s s2"
      using emp s2(1) by (simp add: processEvent_def Let_def s0_def[symmetric])
    show ?thesis
    proof (cases "run_handler throws (pe_onEventHandle args) ?e s s2")
      case (Inr s')
      from run_handler_Inr[OF Inr] s2(2) wf_store_cong[of s' s2] pe Inr show ?thesis by simp
    next
      case (Inl x)
      obtain err s' where x: "x = (err, s')" by (cases x)
      from run_handler_Inl[OF Inl[unfolded x]] assms wf_store_cong[of s' s] pe Inl x hc emp(2)
      show ?thesis by auto
    qed
  qed
qed

text \<open>And it throws when the event is not yet recorded and the handler throws.\<close>

lemma processEvent_handler_throws:
  assumes "events_by_eventId (ev_id (pe_event args)) s = []"
    and "pe_onEventHandle args = Some f" "truthy f" "throws (handlerCalls s) f (pe_event args)"
  shows "\<forall>s'. processEvent throws args s \<noteq> Inr s'"
proof (intro allI notI)
  fix s'
  assume "processEvent throws args s = Inr s'"
  then show False
  proof (cases rule: processEvent_Inr_cases)
    case (recorded d)
    with assms(1) show ?thesis by (simp add: unique_Some_iff)
  next
    case (fresh s0 s2)
    from switch_event_frame[OF fresh(10)] fresh(8) have "handlerCalls s2 = handlerCalls s"
      by (simp add: insert_events_def)
    with fresh(11) assms(2,3,4) show ?thesis by (simp add: run_handler_def)
  qed
qed

lemma processEvent_returns:
  assumes "wf_store s"
    and "\<And>f. pe_onEventHandle args = Some f \<Longrightarrow> truthy f \<Longrightarrow>
           \<not> throws (handlerCalls s) f (pe_event args)"
  shows "\<exists>s'. processEvent throws args s = Inr s' \<and> wf_store s'"
  using processEvent_wf[OF assms(1), of throws args] assms(2) by auto

lemma commit_wf: "wf_store s \<Longrightarrow> wf_store (commit (processEvent throws a) s)"
  using processEvent_wf[of s throws a] by (auto simp: commit_def)

lemma processEvents_wf: "wf_store s \<Longrightarrow> wf_store (processEvents throws as s)"
  unfolding processEvents_def by (induction as arbitrary: s) (simp_all add: commit_wf)

lemma wf_store0: "wf_store store0"
  by (simp add: wf_store_def store0_def)

lemmas ex_defs = pe_def created1_def created5_def deleted1_def updated1_def ev_def user1_def
  store0_def handler_ok_def handler_throws_def
lemmas pe_defs = processEvent_def Let_def events_by_eventId_def insert_events_def switch_event_def
  case_user_created_def case_user_updated_def case_user_deleted_def users_by_id_def insert_users_def
  patch_users_def delete_users_def run_handler_def rollback_def truthy_def truthy_bool_def
  truthy_opt_def print_def commit_def

lemma processEvent_created1:
  "processEvent handler_ok (pe created1) store0 =
     Inr \<lparr>events = [\<lparr>ed_id = 0, ed_creationTime = 1, eventId = ''event_01'',
                       event = ''user.created'', updatedAt = Some ''2024-01-01''\<rparr>],
          users = [\<lparr>ud_id = 1, ud_data = omit (ev_data created1) [''object'']\<rparr>],
          syncState = [], nextId = 2, clock = 2, console = [],
          handlerCalls = [(''handle'', created1, False)], requests = []\<rparr>"
  by (simp add: ex_defs pe_defs)

lemma store1_eq: "store1 = \<lparr>events = [\<lparr>ed_id = 0, ed_creationTime = 1, eventId = ''event_01'',
                       event = ''user.created'', updatedAt = Some ''2024-01-01''\<rparr>],
          users = [\<lparr>ud_id = 1, ud_data = omit (ev_data created1) [''object'']\<rparr>],
          syncState = [], nextId = 2, clock = 2, console = [],
          handlerCalls = [(''handle'', created1, False)], requests = []\<rparr>"
  by (simp add: store1_def commit_def processEvent_created1)

lemma processEvent_created1_store1: "processEvent handler_ok (pe created1) store0 = Inr store1"
  by (simp add: store1_eq processEvent_created1)

lemma wf_store1: "wf_store store1"
  by (simp add: store1_eq wf_store_def created1_def ev_def user1_def)

lemma processEvent_created1_throws:
  "processEvent handler_throws (pe created1) (store0\<lparr>handlerCalls := cs\<rparr>) =
     Inl (HandlerError, store0\<lparr>handlerCalls := cs @ [(''handle'', created1, True)]\<rparr>)"
  by (simp add: ex_defs pe_defs)

lemma processEvents_created1_throws:
  "processEvents handler_throws [pe created1, pe created1, pe created1] store0 =
     store0\<lparr>handlerCalls := [(''handle'', created1, True), (''handle'', created1, True),
                              (''handle'', created1, True)]\<rparr>"
  "processEvents handler_throws [pe created1, pe created1] store0 =
     store0\<lparr>handlerCalls := [(''handle'', created1, True), (''handle'', created1, True)]\<rparr>"
  using processEvent_created1_throws[of "[]"]
    processEvent_created1_throws[of "[(''handle'', created1, True)]"]
    processEvent_created1_throws[of "[(''handle'', created1, True), (''handle'', created1, True)]"]
  by (simp_all add: processEvents_def commit_def store0_def)

subsection \<open>Idempotence\<close>

text \<open>
  Against C1 as worded: with a handler that throws, the application of a
  \<^verbatim>\<open>user.created\<close> event to the empty store throws and is rolled back, and so is the
  second application: after the two, the \<^verbatim>\<open>events\<close> table holds no document for the
  id, not one.
\<close>

theorem processEvent_idempotent_counterexample:
  "processEvent handler_throws (pe created1) store0 =
     Inl (HandlerError, store0\<lparr>handlerCalls := [(''handle'', created1, True)]\<rparr>)
   \<and> events (processEvents handler_throws [pe created1, pe created1] store0) = []
   \<and> length (events_by_eventId (ev_id (pe_event (pe created1)))
        (processEvents handler_throws [pe created1, pe created1] store0)) = 0"
proof -
  have "processEvent handler_throws (pe created1) store0 =
     Inl (HandlerError, store0\<lparr>handlerCalls := [(''handle'', created1, True)]\<rparr>)"
    using processEvent_created1_throws[of "[]"] by (simp add: store0_def)
  then show ?thesis
    unfolding processEvents_created1_throws by (simp add: events_by_eventId_def store0_def)
qed

text \<open>
  C1, for applications that return. When an application of \<^verbatim>\<open>processEvent\<close> returns, for
  an event of any type, a second application for the same event id (with whatever options
  and handler) returns too and leaves the three tables as the first application left them,
  with exactly one \<^verbatim>\<open>events\<close> document for the id. An application that throws leaves the
  three tables as it found them. On a well-formed store an application returns unless the
  event is not yet recorded and the handler throws, and then it does throw.
\<close>

theorem processEvent_idempotent:
  assumes "ev_id (pe_event args') = ev_id (pe_event args)"
  shows "(processEvent throws args s = Inr s1 \<longrightarrow>
            (\<exists>s2. processEvent throws' args' s1 = Inr s2
               \<and> events s2 = events s1 \<and> users s2 = users s1 \<and> syncState s2 = syncState s1
               \<and> length (events_by_eventId (ev_id (pe_event args)) s2) = 1))
       \<and> (processEvent throws args s = Inl (err, s1) \<longrightarrow>
            events s1 = events s \<and> users s1 = users s \<and> syncState s1 = syncState s)
       \<and> (wf_store s \<longrightarrow>
            (\<exists>s2. processEvent throws args s = Inr s2)
            \<or> (\<exists>s2 f. processEvent throws args s = Inl (HandlerError, s2)
                  \<and> events_by_eventId (ev_id (pe_event args)) s = []
                  \<and> pe_onEventHandle args = Some f \<and> truthy f
                  \<and> throws (handlerCalls s) f (pe_event args)))
       \<and> (wf_store s \<longrightarrow> events_by_eventId (ev_id (pe_event args)) s = [] \<longrightarrow>
            pe_onEventHandle args = Some g \<longrightarrow> truthy g \<longrightarrow>
            throws (handlerCalls s) g (pe_event args) \<longrightarrow>
            (\<exists>s2. processEvent throws args s = Inl (HandlerError, s2)))"
proof (intro conjI impI)
  assume "processEvent throws args s = Inr s1"
  from processEvent_twice[OF this assms, of throws']
  show "\<exists>s2. processEvent throws' args' s1 = Inr s2
               \<and> events s2 = events s1 \<and> users s2 = users s1 \<and> syncState s2 = syncState s1
               \<and> length (events_by_eventId (ev_id (pe_event args)) s2) = 1"
    by blast
next
  assume "processEvent throws args s = Inl (err, s1)"
  from processEvent_Inl[OF this]
  show "events s1 = events s" "users s1 = users s" "syncState s1 = syncState s" by simp_all
next
  assume "wf_store s"
  from processEvent_wf[OF this, of throws args]
  show "(\<exists>s2. processEvent throws args s = Inr s2)
            \<or> (\<exists>s2 f. processEvent throws args s = Inl (HandlerError, s2)
                  \<and> events_by_eventId (ev_id (pe_event args)) s = []
                  \<and> pe_onEventHandle args = Some f \<and> truthy f
                  \<and> throws (handlerCalls s) f (pe_event args))"
    by blast
next
  assume "wf_store s" "events_by_eventId (ev_id (pe_event args)) s = []"
    "pe_onEventHandle args = Some g" "truthy g" "throws (handlerCalls s) g (pe_event args)"
  with processEvent_wf[of s throws args] processEvent_handler_throws[of args s g throws]
  show "\<exists>s2. processEvent throws args s = Inl (HandlerError, s2)"
    by blast
qed

theorem processEvent_idempotent_witness:
  "ev_id (pe_event ((pe created1)\<lparr>pe_logLevel := Some DEBUG\<rparr>)) = ev_id (pe_event (pe created1))
   \<and> wf_store store0
   \<and> (\<exists>s1 s2. processEvent handler_ok (pe created1) store0 = Inr s1
       \<and> processEvent handler_throws ((pe created1)\<lparr>pe_logLevel := Some DEBUG\<rparr>) s1 = Inr s2
       \<and> events s2 = events s1 \<and> users s2 = users s1 \<and> syncState s2 = syncState s1
       \<and> length (events_by_eventId (ev_id (pe_event (pe created1))) s2) = 1)
   \<and> (\<exists>s1. processEvent handler_throws (pe created1) store0 = Inl (HandlerError, s1)
       \<and> events s1 = events store0 \<and> users s1 = users store0
       \<and> syncState s1 = syncState store0)"
proof -
  have i: "ev_id (pe_event ((pe created1)\<lparr>pe_logLevel := Some DEBUG\<rparr>))
             = ev_id (pe_event (pe created1))"
    by (simp add: pe_def)
  have t: "processEvent handler_throws (pe created1) store0 =
     Inl (HandlerError, store0\<lparr>handlerCalls := [(''handle'', created1, True)]\<rparr>)"
    using processEvent_created1_throws[of "[]"] by (simp add: store0_def)
  from processEvent_idempotent[OF i, of handler_throws store0
      "store0\<lparr>handlerCalls := [(''handle'', created1, True)]\<rparr>" _ HandlerError "''handle''"] t
  have thr: "\<exists>s1. processEvent handler_throws (pe created1) store0 = Inl (HandlerError, s1)
       \<and> events s1 = events store0 \<and> users s1 = users store0
       \<and> syncState s1 = syncState store0"
    by blast
  from processEvent_idempotent[OF i, of handler_ok store0 store1 handler_throws]
    processEvent_created1_store1
  obtain s2 where "processEvent handler_throws ((pe created1)\<lparr>pe_logLevel := Some DEBUG\<rparr>) store1
       = Inr s2"
    "events s2 = events store1" "users s2 = users store1" "syncState s2 = syncState store1"
    "length (events_by_eventId (ev_id (pe_event (pe created1))) s2) = 1"
    by blast
  with processEvent_created1_store1 i wf_store0 thr show ?thesis by blast
qed

subsection \<open>An event already recorded\<close>

lemma returned_calls_append [simp]:
  "returned_calls (s\<lparr>handlerCalls := cs\<rparr>) = filter (\<lambda>c. \<not> snd (snd c)) cs"
  by (simp add: returned_calls_def)

lemma processEvent_handler_once:
  assumes "processEvent throws args s = Inr s1" "handler_once s"
  shows "handler_once s1"
proof -
  from processEvent_events[OF assms(1)]
  have ev: "\<And>i. events_by_eventId i s \<noteq> [] \<Longrightarrow> events_by_eventId i s1 \<noteq> []"
    by (auto simp: events_by_eventId_def)
  from processEvent_events[OF assms(1)]
  have new: "events_by_eventId (ev_id (pe_event args)) s1 \<noteq> []"
    by (auto simp: events_by_eventId_def)
  from processEvent_handlerCalls[OF assms(1)] show ?thesis
  proof
    assume "handlerCalls s1 = handlerCalls s"
    with assms(2) ev show ?thesis by (auto simp: handler_once_def returned_calls_def)
  next
    assume a: "events_by_eventId (ev_id (pe_event args)) s = [] \<and>
      (\<exists>f. handlerCalls s1 = handlerCalls s @ [(f, pe_event args, False)])"
    then obtain f where f: "handlerCalls s1 = handlerCalls s @ [(f, pe_event args, False)]"
      by blast
    from a assms(2)
    have "ev_id (pe_event args) \<notin> (\<lambda>c. ev_id (fst (snd c))) ` set (returned_calls s)"
      by (auto simp: handler_once_def)
    with f assms(2) ev new show ?thesis
      by (auto simp: handler_once_def returned_calls_def)
  qed
qed

lemma processEvent_Inl_handler_once:
  assumes "processEvent throws args s = Inl (err, s1)" "handler_once s"
  shows "handler_once s1"
proof -
  from processEvent_Inl[OF assms(1)]
  have "events s1 = events s" "returned_calls s1 = returned_calls s"
    by (auto simp: returned_calls_def)
  with assms(2) show ?thesis by (simp add: handler_once_def events_by_eventId_def)
qed

lemma commit_handler_once:
  "handler_once s \<Longrightarrow> handler_once (commit (processEvent throws a) s)"
  by (auto simp: commit_def dest: processEvent_handler_once processEvent_Inl_handler_once
      split: sum.splits)

lemma processEvents_handler_once:
  "handler_once s \<Longrightarrow> handler_once (processEvents throws as s)"
  unfolding processEvents_def by (induction as arbitrary: s) (auto simp: commit_handler_once)

lemma distinct_count_le_1: "distinct (map f xs) \<Longrightarrow> length (filter (\<lambda>x. f x = k) xs) \<le> 1"
proof (induction xs)
  case Nil
  then show ?case by simp
next
  case (Cons x xs)
  show ?case
  proof (cases "f x = k")
    case True
    with Cons.prems have "filter (\<lambda>x. f x = k) xs = []"
      by (auto simp: filter_empty_conv image_iff)
    with True show ?thesis by simp
  next
    case False
    with Cons show ?thesis by simp
  qed
qed

text \<open>
  Against C10 as worded: the handler is called more than once for an event id when it
  throws. Each application of the event is rolled back, so the id is never recorded, and
  three applications call the handler three times.
\<close>

theorem handler_called_again:
  "calls_for ''event_01'' (processEvents handler_throws [pe created1, pe created1, pe created1] store0)
     = [(''handle'', created1, True), (''handle'', created1, True), (''handle'', created1, True)]
   \<and> events (processEvents handler_throws [pe created1, pe created1, pe created1] store0) = []"
  unfolding processEvents_created1_throws
  by (simp add: calls_for_def store0_def created1_def ev_def)

text \<open>
  C10, with the calls that return. When the id of the event is already in the
  \<^verbatim>\<open>events\<close> table, an application leaves \<^verbatim>\<open>events\<close>, \<^verbatim>\<open>users\<close> and \<^verbatim>\<open>syncState\<close> as they
  were and does not call the handler, whether it returns or throws, and on a well-formed
  store it returns. Over any run of applications that starts with no call made, at most
  one call of the handler returns for an event id.
\<close>

theorem processEvent_recorded_frame:
  "(events_by_eventId (ev_id (pe_event args)) s \<noteq> [] \<longrightarrow> processEvent throws args s = Inr s1 \<longrightarrow>
      events s1 = events s \<and> users s1 = users s \<and> syncState s1 = syncState s
      \<and> handlerCalls s1 = handlerCalls s)
   \<and> (events_by_eventId (ev_id (pe_event args)) s \<noteq> [] \<longrightarrow>
      processEvent throws args s = Inl (err, s1) \<longrightarrow>
      events s1 = events s \<and> users s1 = users s \<and> syncState s1 = syncState s
      \<and> handlerCalls s1 = handlerCalls s)
   \<and> (events_by_eventId (ev_id (pe_event args)) s \<noteq> [] \<longrightarrow> wf_store s \<longrightarrow>
      (\<exists>s2. processEvent throws args s = Inr s2))
   \<and> (handlerCalls s0 = [] \<longrightarrow>
      length (filter (\<lambda>c. ev_id (fst (snd c)) = i)
                (returned_calls (processEvents throws as s0))) \<le> 1)"
proof -
  have f1: "events s1 = events s \<and> users s1 = users s \<and> syncState s1 = syncState s
      \<and> handlerCalls s1 = handlerCalls s"
    if a: "events_by_eventId (ev_id (pe_event args)) s \<noteq> []" "processEvent throws args s = Inr s1"
    using a(2) a(1) by (cases rule: processEvent_Inr_cases) simp_all
  have f2: "events s1 = events s \<and> users s1 = users s \<and> syncState s1 = syncState s
      \<and> handlerCalls s1 = handlerCalls s"
    if a: "events_by_eventId (ev_id (pe_event args)) s \<noteq> []"
      "processEvent throws args s = Inl (err, s1)"
    using a(2) a(1) by (cases rule: processEvent_Inl_cases) simp_all
  have f3: "\<exists>s2. processEvent throws args s = Inr s2"
    if "events_by_eventId (ev_id (pe_event args)) s \<noteq> []" "wf_store s"
    using that processEvent_wf[of s throws args] by auto
  have f4: "length (filter (\<lambda>c. ev_id (fst (snd c)) = i)
                (returned_calls (processEvents throws as s0))) \<le> 1"
    if "handlerCalls s0 = []"
  proof -
    from that have "handler_once s0" by (simp add: handler_once_def returned_calls_def)
    then have "handler_once (processEvents throws as s0)" by (rule processEvents_handler_once)
    then show ?thesis
      using distinct_count_le_1[of "\<lambda>c. ev_id (fst (snd c))"
          "returned_calls (processEvents throws as s0)" i]
      by (simp add: handler_once_def)
  qed
  from f1 f2 f3 f4 show ?thesis by blast
qed

theorem processEvent_recorded_frame_witness:
  "events_by_eventId ''event_01'' store1 \<noteq> [] \<and> wf_store store1 \<and>
   (\<exists>s1. processEvent handler_throws (pe created1) store1 = Inr s1 \<and>
      events s1 = events store1 \<and> users s1 = users store1 \<and> syncState s1 = syncState store1 \<and>
      handlerCalls s1 = [(''handle'', created1, False)]) \<and>
   handlerCalls store0 = [] \<and>
   length (filter (\<lambda>c. ev_id (fst (snd c)) = ''event_01'')
       (returned_calls (processEvents handler_ok [pe created1, pe created1] store0))) = 1 \<and>
   (\<exists>s1. processEvent handler_ok (pe created1) (store1\<lparr>events := events store1 @ events store1\<rparr>)
            = Inl (NotUnique, s1) \<and>
      events s1 = events store1 @ events store1 \<and> users s1 = users store1 \<and>
      handlerCalls s1 = handlerCalls store1)"
proof -
  let ?dup = "store1\<lparr>events := events store1 @ events store1\<rparr>"
  have nu: "processEvent handler_ok (pe created1) ?dup = Inl (NotUnique, ?dup)"
    "events_by_eventId (ev_id (pe_event (pe created1))) ?dup \<noteq> []"
    by (simp_all add: store1_eq ex_defs pe_defs)
  from processEvent_recorded_frame[of "pe created1" ?dup handler_ok ?dup NotUnique] nu
  have dup: "\<exists>s1. processEvent handler_ok (pe created1) ?dup = Inl (NotUnique, s1) \<and>
      events s1 = events store1 @ events store1 \<and> users s1 = users store1 \<and>
      handlerCalls s1 = handlerCalls store1"
    by simp
  have r: "events_by_eventId (ev_id (pe_event (pe created1))) store1 \<noteq> []"
    "events_by_eventId ''event_01'' store1 \<noteq> []"
    by (simp_all add: store1_eq events_by_eventId_def pe_def created1_def ev_def)
  have h: "handlerCalls store0 = []" "handlerCalls store1 = [(''handle'', created1, False)]"
    by (simp_all add: store0_def store1_eq)
  have two: "returned_calls (processEvents handler_ok [pe created1, pe created1] store0)
      = [(''handle'', created1, False)]"
    by (simp add: processEvents_def commit_def processEvent_created1 returned_calls_def)
      (simp add: ex_defs pe_defs)
  from processEvent_recorded_frame[of "pe created1" store1 handler_throws] r wf_store1
  obtain s2 where s2: "processEvent handler_throws (pe created1) store1 = Inr s2" by blast
  from processEvent_recorded_frame[of "pe created1" store1 handler_throws s2] r s2 h
  have fr: "events s2 = events store1" "users s2 = users store1" "syncState s2 = syncState store1"
    "handlerCalls s2 = [(''handle'', created1, False)]" by simp_all
  from processEvent_recorded_frame[of _ _ handler_ok _ _ store0 "''event_01''"
      "[pe created1, pe created1]"] h(1)
  have "length (filter (\<lambda>c. ev_id (fst (snd c)) = ''event_01'')
       (returned_calls (processEvents handler_ok [pe created1, pe created1] store0))) \<le> 1"
    by simp
  with two have "length (filter (\<lambda>c. ev_id (fst (snd c)) = ''event_01'')
       (returned_calls (processEvents handler_ok [pe created1, pe created1] store0))) = 1"
    by (simp add: created1_def ev_def)
  with fr s2 r(2) h(1) wf_store1 dup show ?thesis by blast
qed

subsection \<open>An update for a user that is not mirrored\<close>





subsection \<open>Last writer wins, per document\<close>

lemma case_user_updated_users:
  assumes "case_user_updated c e s = Inr s'" "u' \<in> set (users s')" "distinct (map ud_id (users s))"
  shows "u' \<in> set (users s)
       \<or> (nextId s \<le> ud_id u' \<and> data_updatedAt (ud_data u') = data_updatedAt (ev_data e))
       \<or> (\<exists>u \<in> set (users s). ud_id u = ud_id u'
             \<and> \<not> js_ge (data_updatedAt (ud_data u)) (data_updatedAt (ev_data e))
             \<and> data_updatedAt (ud_data u') =
                 (case data_updatedAt (ev_data e) of
                    None \<Rightarrow> data_updatedAt (ud_data u) | Some t \<Rightarrow> Some t))"
proof (cases "unique (users_by_id (data_id (ev_data e)) s)")
  case (Inl a)
  with assms show ?thesis by (simp add: case_user_updated_def Let_def)
next
  case (Inr r)
  show ?thesis
  proof (cases r)
    case None
    with Inr assms show ?thesis
      by (auto simp: case_user_updated_def Let_def insert_users_def split: if_splits)
  next
    case (Some u)
    with Inr have u: "u \<in> set (users s)"
      by (auto simp: unique_Some_iff users_by_id_def dest!: arg_cong[where f=set])
    show ?thesis
    proof (cases "js_ge (data_updatedAt (ud_data u)) (data_updatedAt (ev_data e))")
      case True
      with Inr Some assms show ?thesis by (auto simp: case_user_updated_def Let_def)
    next
      case False
      with Inr Some assms(1)
      have s': "s' = patch_users (ud_id u) (omit (ev_data e) [''object'']) s"
        by (simp add: case_user_updated_def Let_def)
      from assms(2) obtain v where v: "v \<in> set (users s)"
        "u' = (if ud_id v = ud_id u then v\<lparr>ud_data := patch_payload (ud_data v) (omit (ev_data e) [''object''])\<rparr> else v)"
        by (auto simp: s' patch_users_def)
      show ?thesis
      proof (cases "ud_id v = ud_id u")
        case True
        with distinct_ud_id_eq[OF assms(3) v(1) u] have "v = u" by simp
        with v u False show ?thesis
          by (auto simp: patch_payload_def split: option.splits)
      next
        case False
        with v show ?thesis by simp
      qed
    qed
  qed
qed

lemma switch_event_users:
  assumes "switch_event c e s = Inr s'" "u' \<in> set (users s')" "distinct (map ud_id (users s))"
  shows "u' \<in> set (users s)
       \<or> (nextId s \<le> ud_id u' \<and> data_updatedAt (ud_data u') = data_updatedAt (ev_data e))
       \<or> (\<exists>u \<in> set (users s). ud_id u = ud_id u'
             \<and> \<not> js_ge (data_updatedAt (ud_data u)) (data_updatedAt (ev_data e))
             \<and> data_updatedAt (ud_data u') =
                 (case data_updatedAt (ev_data e) of
                    None \<Rightarrow> data_updatedAt (ud_data u) | Some t \<Rightarrow> Some t))"
proof -
  consider "ev_event e = ''user.created''" | "ev_event e = ''user.updated''"
    | "ev_event e = ''user.deleted''"
    | "ev_event e \<noteq> ''user.created''" "ev_event e \<noteq> ''user.updated''" "ev_event e \<noteq> ''user.deleted''"
    by blast
  then show ?thesis
  proof cases
    case 1
    with assms(1,2) show ?thesis
      by (auto simp: switch_event_def case_user_created_def Let_def insert_users_def
          split: sum.splits option.splits)
  next
    case 2
    with assms(1) have "case_user_updated c e s = Inr s'" by (simp add: switch_event_def)
    from case_user_updated_users[OF this assms(2,3)] show ?thesis .
  next
    case 3
    with assms(1,2) show ?thesis
      by (auto simp: switch_event_def case_user_deleted_def Let_def delete_users_def
          split: sum.splits option.splits)
  next
    case 4
    with assms(1,2) show ?thesis by (simp add: switch_event_def)
  qed
qed

lemma processEvent_users:
  assumes "processEvent throws a s = Inr s'" "u' \<in> set (users s')" "distinct (map ud_id (users s))"
  shows "u' \<in> set (users s)
       \<or> (nextId s \<le> ud_id u'
           \<and> data_updatedAt (ud_data u') = data_updatedAt (ev_data (pe_event a)))
       \<or> (\<exists>u \<in> set (users s). ud_id u = ud_id u'
             \<and> \<not> js_ge (data_updatedAt (ud_data u)) (data_updatedAt (ev_data (pe_event a)))
             \<and> data_updatedAt (ud_data u') =
                 (case data_updatedAt (ev_data (pe_event a)) of
                    None \<Rightarrow> data_updatedAt (ud_data u) | Some t \<Rightarrow> Some t))"
  using assms(1)
proof (cases rule: processEvent_Inr_cases)
  case (recorded d)
  with assms(2) show ?thesis by simp
next
  case (fresh s0 s2)
  let ?e = "pe_event a"
  let ?t = "insert_events (ev_id ?e) (ev_event ?e) (data_updatedAt (ev_data ?e)) s0"
  have t: "users ?t = users s" "nextId s \<le> nextId ?t"
    by (simp_all add: insert_events_def fresh)
  from run_handler_Inr[OF fresh(11)] assms(2) have "u' \<in> set (users s2)" by simp
  from switch_event_users[OF fresh(10) this] assms(3) t show ?thesis by auto
qed

lemma js_ge_trans_step:
  assumes "js_ge so (Some t0)" "\<not> js_ge so (Some t)"
  shows "t0 \<le> t"
  using assms by (cases so) auto

lemma lww_by_recordD:
  "lww_by_record H s \<Longrightarrow> u \<in> set (users s) \<Longrightarrow> (i, ud_id u, t) \<in> set H \<Longrightarrow>
     js_ge (data_updatedAt (ud_data u)) (Some t)"
  unfolding lww_by_record_def by fastforce

lemma lww_step_Inr:
  assumes wf: "wf_store s" and inv: "lww_by_record H s" and fr: "recorded_before H s"
    and pe: "processEvent throws a s = Inr s'"
  shows "lww_by_record (H @ applied_by throws a s) s'
       \<and> recorded_before (H @ applied_by throws a s) s'"
proof -
  let ?new = "data_updatedAt (ev_data (pe_event a))"
  from pe have cm: "commit (processEvent throws a) s = s'" by (simp add: commit_def)
  from processEvent_Inr_wf[OF wf pe] have wf': "wf_store s'" .
  from wf have dist: "distinct (map ud_id (users s))" by (simp add: wf_store_def)
  from wf' have dist': "distinct (map ud_id (users s'))"
    and bound': "\<And>u. u \<in> set (users s') \<Longrightarrow> ud_id u < nextId s'"
    by (simp_all add: wf_store_def)
  have mono: "nextId s \<le> nextId s'" using processEvent_frame[OF pe] by simp
  have old: "js_ge (data_updatedAt (ud_data u')) (Some t)"
    if "(i, k, t) \<in> set H" "u' \<in> set (users s')" "k = ud_id u'" for i k t u'
  proof -
    from fr that(1) have k: "k < nextId s" by (auto simp: recorded_before_def)
    from processEvent_users[OF pe that(2) dist]
    consider "u' \<in> set (users s)"
      | "nextId s \<le> ud_id u'"
      | u where "u \<in> set (users s)" "ud_id u = ud_id u'"
          "\<not> js_ge (data_updatedAt (ud_data u)) ?new"
          "data_updatedAt (ud_data u') =
             (case ?new of None \<Rightarrow> data_updatedAt (ud_data u) | Some t \<Rightarrow> Some t)"
      by blast
    then show ?thesis
    proof cases
      case 1
      from that(1,3) have "(i, ud_id u', t) \<in> set H" by simp
      from lww_by_recordD[OF inv 1 this] show ?thesis .
    next
      case 2
      with k that(3) show ?thesis by simp
    next
      case 3
      from that(1,3) 3(2) have "(i, ud_id u, t) \<in> set H" by simp
      from lww_by_recordD[OF inv 3(1) this] have ge: "js_ge (data_updatedAt (ud_data u)) (Some t)" .
      show ?thesis
      proof (cases ?new)
        case None
        with 3(4) ge show ?thesis by simp
      next
        case (Some tn)
        with js_ge_trans_step[OF ge] 3(3,4) show ?thesis by simp
      qed
    qed
  qed
  have new: "js_ge (data_updatedAt (ud_data u')) (Some t) \<and> k < nextId s'"
    if "(i, k, t) \<in> set (applied_by throws a s)" "u' \<in> set (users s')" "k = ud_id u'" for i k t u'
  proof -
    from that(1) obtain w where w: "?new = Some t" "w \<in> set (users s')" "w \<notin> set (users s)"
      "k = ud_id w"
      by (auto simp: applied_by_def cm split: option.splits)
    from distinct_ud_id_eq[OF dist' w(2) that(2)] w(4) that(3) have "w = u'" by simp
    with w have u': "u' \<notin> set (users s)" by simp
    from processEvent_users[OF pe that(2) dist] u' w(1)
    have "data_updatedAt (ud_data u') = Some t" by auto
    with bound'[OF that(2)] that(3) show ?thesis by simp
  qed
  have bound_new: "k < nextId s'" if "(i, k, t) \<in> set (applied_by throws a s)" for i k t
  proof -
    from that obtain w where "w \<in> set (users s')" "k = ud_id w"
      by (auto simp: applied_by_def cm split: option.splits)
    with bound' show ?thesis by simp
  qed
  from old new have "lww_by_record (H @ applied_by throws a s) s'"
    unfolding lww_by_record_def by (auto; blast)
  moreover from fr mono bound_new have "recorded_before (H @ applied_by throws a s) s'"
    unfolding recorded_before_def by (auto; fastforce)
  ultimately show ?thesis by simp
qed

text \<open>An application that throws writes nothing, so it adds nothing to the history.\<close>

lemma lww_step_Inl:
  assumes inv: "lww_by_record H s" and fr: "recorded_before H s"
    and pe: "processEvent throws a s = Inl (err, s')"
  shows "applied_by throws a s = []" "lww_by_record H s'" "recorded_before H s'"
proof -
  from pe have cm: "commit (processEvent throws a) s = s'" by (simp add: commit_def)
  from processEvent_Inl[OF pe] have t: "users s' = users s" "nextId s' = nextId s" by simp_all
  show "applied_by throws a s = []" by (simp add: applied_by_def cm t split: option.splits)
  from inv t show "lww_by_record H s'" by (simp add: lww_by_record_def)
  from fr t show "recorded_before H s'" by (simp add: recorded_before_def)
qed

lemma lww_step:
  assumes wf: "wf_store s" and inv: "lww_by_record H s" and fr: "recorded_before H s"
  shows "lww_by_record (H @ applied_by throws a s) (commit (processEvent throws a) s)
       \<and> recorded_before (H @ applied_by throws a s) (commit (processEvent throws a) s)"
proof (cases "processEvent throws a s")
  case (Inr s')
  then have "commit (processEvent throws a) s = s'" by (simp add: commit_def)
  with lww_step_Inr[OF assms Inr] show ?thesis by simp
next
  case (Inl x)
  obtain err s' where x: "x = (err, s')" by (cases x)
  with Inl have pe: "processEvent throws a s = Inl (err, s')" by simp
  then have "commit (processEvent throws a) s = s'" by (simp add: commit_def)
  with lww_step_Inl[OF inv fr pe] show ?thesis by simp
qed

lemma lww_run:
  assumes "wf_store s" "lww_by_record H s" "recorded_before H s"
  shows "lww_by_record (H @ history throws as s) (processEvents throws as s)"
  using assms
proof (induction as arbitrary: s H)
  case Nil
  then show ?case by (simp add: processEvents_def)
next
  case (Cons a as)
  from lww_step[OF Cons.prems, of throws a] commit_wf[OF Cons.prems(1), of throws a]
  have "lww_by_record ((H @ applied_by throws a s) @ history throws as (commit (processEvent throws a) s))
          (processEvents throws as (commit (processEvent throws a) s))"
    by (intro Cons.IH) simp_all
  then show ?case by (simp add: processEvents_def)
qed

lemma stale_update_discarded:
  assumes "ev_event (pe_event a) = ''user.updated''" "processEvent throws a s = Inr s'"
    "users_by_id (data_id (ev_data (pe_event a))) s = [u]"
    "js_ge (data_updatedAt (ud_data u)) (data_updatedAt (ev_data (pe_event a)))"
  shows "users s' = users s"
  using assms(2)
proof (cases rule: processEvent_Inr_cases)
  case (recorded d)
  then show ?thesis by simp
next
  case (fresh s0 s2)
  from fresh(10) assms(1,3,4) fresh(3) have "users s2 = users s"
    by (auto simp: switch_event_def case_user_updated_def users_by_id_def insert_events_def
        Let_def)
  with run_handler_Inr[OF fresh(11)] show ?thesis by simp
qed

text \<open>
  C5, per document. On a well-formed store, over any run of applications of
  \<^verbatim>\<open>processEvent\<close>, with whatever options and handler, the \<^verbatim>\<open>updatedAt\<close> stored in a user
  document stays \<^verbatim>\<open>>=\<close> the \<^verbatim>\<open>updatedAt\<close> of every \<^verbatim>\<open>user.created\<close> or \<^verbatim>\<open>user.updated\<close>
  event written to that document, those of an earlier history \<open>H\<close> included. And a
  \<^verbatim>\<open>user.updated\<close> event whose \<^verbatim>\<open>updatedAt\<close> is not above the stored one leaves the
  \<^verbatim>\<open>users\<close> table as it was.
\<close>

theorem lww_invariant:
  assumes "wf_store s" and "lww_by_record H s" and "recorded_before H s"
  shows "lww_by_record (H @ history throws as s) (processEvents throws as s)
       \<and> (ev_event (pe_event a) = ''user.updated'' \<longrightarrow>
            users_by_id (data_id (ev_data (pe_event a))) s2 = [u] \<longrightarrow>
            js_ge (data_updatedAt (ud_data u)) (data_updatedAt (ev_data (pe_event a))) \<longrightarrow>
            processEvent throws a s2 = Inr s3 \<longrightarrow> users s3 = users s2)"
  using lww_run[OF assms] stale_update_discarded[of a throws s2 s3 u] by blast

lemma run3: "users (processEvents handler_ok [pe created5, pe deleted1, pe created1] store0)
   = [\<lparr>ud_id = 4, ud_data = omit (ev_data created1) [''object'']\<rparr>]"
  by (simp add: processEvents_def ex_defs pe_defs)

lemma hist3: "history handler_ok [pe created5, pe deleted1, pe created1] store0
   = [(''user_01'', 1, ''2024-01-05''), (''user_01'', 4, ''2024-01-01'')]"
  by (simp add: applied_by_def ex_defs pe_defs)

text \<open>
  Against C5 as worded: counted by user id the invariant does not hold: a user created with \<^verbatim>\<open>updatedAt\<close>
  \<^verbatim>\<open>2024-01-05\<close>, deleted, and created again by an event with \<^verbatim>\<open>updatedAt\<close>
  \<^verbatim>\<open>2024-01-01\<close> is mirrored with the older stamp, below that of the first event
  written under its id.
\<close>

theorem lww_by_id_counterexample:
  "\<not> lww_by_id (history handler_ok [pe created5, pe deleted1, pe created1] store0)
       (processEvents handler_ok [pe created5, pe deleted1, pe created1] store0)"
  unfolding lww_by_id_def run3 hist3 by (simp add: created1_def ev_def user1_def)

theorem lww_invariant_witness:
  "wf_store store0 \<and> lww_by_record [] store0 \<and> recorded_before [] store0
   \<and> history handler_ok [pe created1, pe updated1] store0
       = [(''user_01'', 1, ''2024-01-01''), (''user_01'', 1, ''2024-01-02'')]
   \<and> lww_by_record (history handler_ok [pe created1, pe updated1] store0)
         (processEvents handler_ok [pe created1, pe updated1] store0)
   \<and> ev_event (pe_event (pe upd_stale)) = ''user.updated''
   \<and> users_by_id (data_id (ev_data (pe_event (pe upd_stale)))) store1
       = [\<lparr>ud_id = 1, ud_data = omit (ev_data created1) [''object'']\<rparr>]
   \<and> js_ge (data_updatedAt (omit (ev_data created1) [''object'']))
         (data_updatedAt (ev_data (pe_event (pe upd_stale))))
   \<and> (\<exists>s3. processEvent handler_ok (pe upd_stale) store1 = Inr s3 \<and> users s3 = users store1)"
proof -
  have h: "history handler_ok [pe created1, pe updated1] store0
       = [(''user_01'', 1, ''2024-01-01''), (''user_01'', 1, ''2024-01-02'')]"
    by (simp add: applied_by_def ex_defs pe_defs omit_def patch_payload_def)
  have u: "users_by_id (data_id (ev_data (pe_event (pe upd_stale)))) store1
       = [\<lparr>ud_id = 1, ud_data = omit (ev_data created1) [''object'']\<rparr>]"
    by (simp add: store1_eq users_by_id_def pe_def upd_stale_def ev_def user1_def created1_def)
  have g: "js_ge (data_updatedAt (omit (ev_data created1) [''object'']))
         (data_updatedAt (ev_data (pe_event (pe upd_stale))))"
    by (simp add: pe_def upd_stale_def ev_def user1_def created1_def)
  have t: "ev_event (pe_event (pe upd_stale)) = ''user.updated''"
    by (simp add: pe_def upd_stale_def ev_def)
  from processEvent_returns[of store1 "pe upd_stale" handler_ok] wf_store1 obtain s3
    where s3: "processEvent handler_ok (pe upd_stale) store1 = Inr s3"
    by (auto simp: handler_ok_def)
  have i: "lww_by_record [] store0" "recorded_before [] store0"
    by (simp_all add: lww_by_record_def recorded_before_def)
  from lww_invariant[OF wf_store0 i, of handler_ok "[pe created1, pe updated1]" "pe upd_stale" store1
      "\<lparr>ud_id = 1, ud_data = omit (ev_data created1) [''object'']\<rparr>" s3]
    h u g t s3 i wf_store0
  show ?thesis by simp
qed

subsection \<open>Last writer wins, two updates\<close>

lemma map_cong_set: "(\<And>v. v \<in> set us \<Longrightarrow> f v = g v) \<Longrightarrow> map f us = map g us"
  by simp

lemma lww_patch_none:
  "filter (\<lambda>u. data_id (ud_data u) = data_id d) us = [] \<Longrightarrow> lww_patch d us = us"
  by (auto simp: lww_patch_def lww_patch1_def filter_empty_conv intro!: map_idI)

lemma lww_patch1_id: "data_id (ud_data (lww_patch1 d v)) = data_id (ud_data v)"
  by (simp add: lww_patch1_def patch_payload_def)

lemma filter_empty_map: "filter (\<lambda>x. f x = i) xs = [] \<longleftrightarrow> i \<notin> set (map f xs)"
  by (auto simp: filter_empty_conv)

lemma lww_patch_ids:
  "filter (\<lambda>u. data_id (ud_data u) = i) (lww_patch d us) = [] \<longleftrightarrow>
   filter (\<lambda>u. data_id (ud_data u) = i) us = []"
proof -
  have "map (\<lambda>u. data_id (ud_data u)) (lww_patch d us) = map (\<lambda>u. data_id (ud_data u)) us"
    by (simp add: lww_patch_def lww_patch1_id)
  then show ?thesis unfolding filter_empty_map by simp
qed

lemma case_user_updated_lww:
  assumes "wf_store s"
  shows "\<exists>s'. case_user_updated c e s = Inr s'
           \<and> users s' = lww_apply c (ev_data e) (nextId s) (users s)"
proof -
  let ?i = "data_id (ev_data e)"
  from assms have dist: "distinct (map ud_id (users s))"
    and disti: "distinct (map (\<lambda>u. data_id (ud_data u)) (users s))"
    by (simp_all add: wf_store_def)
  show ?thesis
  proof (cases "find (\<lambda>u. data_id (ud_data u) = ?i) (users s)")
    case None
    then have emp: "filter (\<lambda>u. data_id (ud_data u) = ?i) (users s) = []"
      by (simp add: find_None_filter)
    with None wf_users_lookup[OF assms, of ?i] lww_patch_none[OF emp] show ?thesis
      by (simp add: case_user_updated_def Let_def lww_apply_def insert_users_def)
  next
    case (Some u)
    from find_Some_in[OF Some] have u: "u \<in> set (users s)" "data_id (ud_data u) = ?i" by simp_all
    then have ne: "filter (\<lambda>u. data_id (ud_data u) = ?i) (users s) \<noteq> []"
      by (auto simp: filter_empty_conv)
    have only: "v = u" if "v \<in> set (users s)" "data_id (ud_data v) = ?i" for v
      using distinct_map_eq[OF disti that(1) u(1)] u(2) that(2) by simp
    show ?thesis
    proof (cases "js_ge (data_updatedAt (ud_data u)) (data_updatedAt (ev_data e))")
      case True
      with only have "lww_patch (ev_data e) (users s) = users s"
        by (auto simp: lww_patch_def lww_patch1_def intro!: map_idI)
      with True Some wf_users_lookup[OF assms, of ?i] ne show ?thesis
        by (simp add: case_user_updated_def Let_def lww_apply_def)
    next
      case False
      have "map (\<lambda>v. if ud_id v = ud_id u
                 then v\<lparr>ud_data := patch_payload (ud_data v) (omit (ev_data e) [''object''])\<rparr> else v)
              (users s) = lww_patch (ev_data e) (users s)"
        unfolding lww_patch_def lww_patch1_def
      proof (rule map_cong_set)
        fix v assume v: "v \<in> set (users s)"
        show "(if ud_id v = ud_id u
                 then v\<lparr>ud_data := patch_payload (ud_data v) (omit (ev_data e) [''object''])\<rparr> else v)
            = (if data_id (ud_data v) = data_id (ev_data e)
                  \<and> \<not> js_ge (data_updatedAt (ud_data v)) (data_updatedAt (ev_data e))
               then v\<lparr>ud_data := patch_payload (ud_data v) (omit (ev_data e) [''object''])\<rparr> else v)"
          using only[OF v] distinct_ud_id_eq[OF dist v u(1)] u(2) False by auto
      qed
      with False Some wf_users_lookup[OF assms, of ?i] ne show ?thesis
        by (simp add: case_user_updated_def Let_def patch_users_def lww_apply_def)
    qed
  qed
qed

text \<open>
  What an application of a \<^verbatim>\<open>user.updated\<close> event leaves on a well-formed store: all
  as it was, when the event is recorded already or the handler throws; the event recorded
  and the mirror updated, otherwise.
\<close>

lemma commit_updated_cases:
  assumes "wf_store s" "ev_event (pe_event a) = ''user.updated''"
  obtains (same) "users (commit (processEvent throws a) s) = users s"
      "nextId (commit (processEvent throws a) s) = nextId s"
      "events (commit (processEvent throws a) s) = events s"
      "events_by_eventId (ev_id (pe_event a)) s \<noteq> [] \<or> \<not> returns (processEvent throws a) s"
  | (applied) d where "returns (processEvent throws a) s"
      "events_by_eventId (ev_id (pe_event a)) s = []"
      "users (commit (processEvent throws a) s) =
         lww_apply (pe_createUserOnUpdate a) (ev_data (pe_event a)) (Suc (nextId s)) (users s)"
      "events (commit (processEvent throws a) s) = events s @ [d]"
      "eventId d = ev_id (pe_event a)"
proof (cases "processEvent throws a s")
  case (Inl x)
  obtain err s' where x: "x = (err, s')" by (cases x)
  from Inl x have cm: "commit (processEvent throws a) s = s'" "\<not> returns (processEvent throws a) s"
    by (simp_all add: commit_def returns_def)
  from processEvent_Inl[OF Inl[unfolded x]] cm show ?thesis by (intro same) simp_all
next
  case (Inr s')
  then have cm: "commit (processEvent throws a) s = s'" "returns (processEvent throws a) s"
    by (simp_all add: commit_def returns_def)
  from Inr show ?thesis
  proof (cases rule: processEvent_Inr_cases)
    case (recorded d)
    with cm show ?thesis by (intro same) (simp_all add: unique_Some_iff)
  next
    case (fresh s0 s2)
    let ?e = "pe_event a"
    let ?t = "insert_events (ev_id ?e) (ev_event ?e) (data_updatedAt (ev_data ?e)) s0"
    from fresh(1,2) have "events_by_eventId (ev_id ?e) s0 = []"
      by (simp add: events_by_eventId_def)
    moreover from fresh(9) assms(1) have "wf_store s0" by simp
    ultimately have wt: "wf_store ?t" by (intro wf_insert_events)
    from case_user_updated_lww[OF wt, of "pe_createUserOnUpdate a" ?e] fresh(10) assms(2)
    have "users s2 = lww_apply (pe_createUserOnUpdate a) (ev_data ?e) (nextId ?t) (users ?t)"
      by (simp add: switch_event_def)
    with run_handler_Inr[OF fresh(11)] fresh(3,5)
    have u: "users s' = lww_apply (pe_createUserOnUpdate a) (ev_data ?e) (Suc (nextId s)) (users s)"
      by (simp add: insert_events_def)
    let ?dd = "\<lparr>ed_id = nextId s0, ed_creationTime = clock s0,
            eventId = ev_id ?e, event = ev_event ?e, updatedAt = data_updatedAt (ev_data ?e)\<rparr>"
    from run_handler_Inr[OF fresh(11)] switch_event_frame[OF fresh(10)] fresh(2)
    have "events s' = events s @ [?dd]"
      by (simp add: insert_events_def)
    with u cm fresh(1) show ?thesis by (intro applied[of ?dd]) simp_all
  qed
qed

lemma map_add_covered:
  assumes "dom p1 \<subseteq> dom p2"
  shows "(m ++ p1) ++ p2 = m ++ p2"
proof (rule ext)
  fix k
  show "((m ++ p1) ++ p2) k = (m ++ p2) k"
  proof (cases "p2 k")
    case None
    with assms have "p1 k = None" by (auto simp: dom_def)
    with None show ?thesis by (simp add: map_add_def)
  next
    case (Some v)
    then show ?thesis by (simp add: map_add_def)
  qed
qed

lemma map_add_absorb:
  assumes "dom p1 \<subseteq> dom p2"
  shows "p1 ++ p2 = p2"
  using map_add_covered[OF assms, of Map.empty] by simp

lemma lww_patch_newer_after_older:
  assumes "data_id d1 = data_id d2" "data_updatedAt d1 = Some t1" "data_updatedAt d2 = Some t2"
    "t1 < t2" "dom (data_props (omit d1 [''object''])) \<subseteq> dom (data_props (omit d2 [''object'']))"
  shows "lww_patch d2 (lww_patch d1 us) = lww_patch d2 us"
proof -
  have "lww_patch1 d2 (lww_patch1 d1 v) = lww_patch1 d2 v" for v
  proof (cases "data_id (ud_data v) = data_id d2 \<and> \<not> js_ge (data_updatedAt (ud_data v)) (Some t1)")
    case True
    then have "\<not> js_ge (data_updatedAt (ud_data v)) (Some t2)"
      using assms(4) by (cases "data_updatedAt (ud_data v)") auto
    with True assms show ?thesis
      by (simp add: lww_patch1_def patch_payload_def map_add_covered)
  next
    case False
    with assms(1,2) show ?thesis by (auto simp: lww_patch1_def)
  qed
  then show ?thesis by (simp add: lww_patch_def)
qed

lemma lww_patch_older_after_newer:
  assumes "data_id d1 = data_id d2" "data_updatedAt d1 = Some t1" "data_updatedAt d2 = Some t2"
    "t1 < t2"
  shows "lww_patch d1 (lww_patch d2 us) = lww_patch d2 us"
proof -
  have "lww_patch1 d1 (lww_patch1 d2 v) = lww_patch1 d2 v" for v
  proof (cases "data_id (ud_data v) = data_id d2 \<and> \<not> js_ge (data_updatedAt (ud_data v)) (Some t2)")
    case True
    with assms show ?thesis
      by (simp add: lww_patch1_def patch_payload_def)
  next
    case False
    then have "data_id (ud_data v) = data_id d2 \<Longrightarrow> js_ge (data_updatedAt (ud_data v)) (Some t1)"
      using assms(4) by (cases "data_updatedAt (ud_data v)") auto
    with False assms(1,2,3) show ?thesis by (auto simp: lww_patch1_def)
  qed
  then show ?thesis by (simp add: lww_patch_def)
qed

text \<open>
  The same two facts with the documents that \<^verbatim>\<open>createUserOnUpdate\<close> adds: they hold when
  the user is mirrored, or when both applications have the option set or both have not.
\<close>

lemma lww_apply_newer_after_older:
  assumes "data_id d1 = data_id d2" "data_updatedAt d1 = Some t1" "data_updatedAt d2 = Some t2"
    "t1 < t2" "dom (data_props (omit d1 [''object''])) \<subseteq> dom (data_props (omit d2 [''object'']))"
    and "filter (\<lambda>u. data_id (ud_data u) = data_id d2) us \<noteq> [] \<or> truthy_bool c1 = truthy_bool c2"
  shows "lww_apply c2 d2 k' (lww_apply c1 d1 k us) = lww_apply c2 d2 k us"
proof (cases "filter (\<lambda>u. data_id (ud_data u) = data_id d2) us = []")
  case False
  with assms(1) lww_patch_ids[of "data_id d2" d1 us]
    lww_patch_newer_after_older[OF assms(1-5), of us]
  show ?thesis by (simp add: lww_apply_def)
next
  case True
  with assms(6) have c: "truthy_bool c1 = truthy_bool c2" by simp
  show ?thesis
  proof (cases "truthy_bool c2")
    case False
    with c True assms(1) lww_patch_none[of d1 us] lww_patch_none[of d2 us] show ?thesis
      by (simp add: lww_apply_def)
  next
    case t: True
    have "patch_payload (omit d1 [''object'']) (omit d2 [''object'']) = omit d2 [''object'']"
      using assms(3) map_add_absorb[OF assms(5)] by (simp add: patch_payload_def omit_def)
    moreover from assms(4) have "\<not> t2 \<le> t1" by simp
    ultimately show ?thesis
      using c t True assms(1,2,3) lww_patch_none[of d2 us]
      by (simp add: lww_apply_def lww_patch_def lww_patch1_def)
  qed
qed

lemma lww_apply_older_after_newer:
  assumes "data_id d1 = data_id d2" "data_updatedAt d1 = Some t1" "data_updatedAt d2 = Some t2"
    "t1 < t2"
    and "filter (\<lambda>u. data_id (ud_data u) = data_id d2) us \<noteq> [] \<or> truthy_bool c1 = truthy_bool c2"
  shows "lww_apply c1 d1 k' (lww_apply c2 d2 k us) = lww_apply c2 d2 k us"
proof (cases "filter (\<lambda>u. data_id (ud_data u) = data_id d2) us = []")
  case False
  with assms(1) lww_patch_ids[of "data_id d2" d2 us]
    lww_patch_older_after_newer[OF assms(1-4), of us]
  show ?thesis by (simp add: lww_apply_def)
next
  case True
  with assms(5) have c: "truthy_bool c1 = truthy_bool c2" by simp
  show ?thesis
  proof (cases "truthy_bool c2")
    case False
    with c True assms(1) lww_patch_none[of d1 us] lww_patch_none[of d2 us] show ?thesis
      by (simp add: lww_apply_def)
  next
    case t: True
    from assms(4) have "t1 \<le> t2" by simp
    with c t True assms(1,2,3) lww_patch_none[of d1 us] show ?thesis
      by (simp add: lww_apply_def lww_patch_def lww_patch1_def)
  qed
qed

text \<open>
  C2, with what the patch needs. Two \<^verbatim>\<open>user.updated\<close> events for one user id, with
  different event ids, the first with the older \<^verbatim>\<open>updatedAt\<close>, the second not yet
  recorded, and every property of the first (\<^verbatim>\<open>object\<close> apart) carried by the second
  too. On a well-formed store where the user is mirrored (or where it is not, and
  \<^verbatim>\<open>createUserOnUpdate\<close> is set for both events or for neither), when the second event is
  applied, that is, when its application returns, applying the two in either order leaves
  the \<^verbatim>\<open>users\<close> table that applying the second alone leaves.
\<close>

theorem last_writer_wins:
  assumes "wf_store s"
    and "ev_event (pe_event a1) = ''user.updated''"
    and "ev_event (pe_event a2) = ''user.updated''"
    and "data_id (ev_data (pe_event a1)) = data_id (ev_data (pe_event a2))"
    and "data_updatedAt (ev_data (pe_event a1)) = Some t1"
    and "data_updatedAt (ev_data (pe_event a2)) = Some t2"
    and "t1 < t2"
    and "ev_id (pe_event a1) \<noteq> ev_id (pe_event a2)"
    and "events_by_eventId (ev_id (pe_event a2)) s = []"
    and "dom (data_props (ev_data (pe_event a1))) - {''object''}
           \<subseteq> dom (data_props (ev_data (pe_event a2)))"
    and "users_by_id (data_id (ev_data (pe_event a2))) s \<noteq> []
         \<or> (pe_createUserOnUpdate a1 = Some True \<longleftrightarrow> pe_createUserOnUpdate a2 = Some True)"
    and "returns (processEvent throws a2) s"
    and "returns (processEvent throws a2) (commit (processEvent throws a1) s)"
  shows "users (processEvents throws [a1, a2] s) = users (processEvents throws [a2] s)
       \<and> users (processEvents throws [a2, a1] s) = users (processEvents throws [a2] s)"
proof -
  let ?d1 = "ev_data (pe_event a1)" and ?d2 = "ev_data (pe_event a2)"
  let ?c1 = "pe_createUserOnUpdate a1" and ?c2 = "pe_createUserOnUpdate a2"
  let ?s1 = "commit (processEvent throws a1) s" and ?s2 = "commit (processEvent throws a2) s"
  let ?n = "Suc (nextId s)"
  have wf1: "wf_store ?s1" and wf2: "wf_store ?s2"
    using commit_wf[OF assms(1)] by simp_all
  have dom: "dom (data_props (omit ?d1 [''object''])) \<subseteq> dom (data_props (omit ?d2 [''object'']))"
    using assms(10) by (auto simp: omit_def restrict_map_def dom_def split: if_splits)
  have fl: "filter (\<lambda>u. data_id (ud_data u) = data_id ?d2) (users s) \<noteq> []
      \<or> truthy_bool ?c1 = truthy_bool ?c2"
    using assms(11) by (simp add: users_by_id_def truthy_bool_def)
  have only: "users ?s2 = lww_apply ?c2 ?d2 ?n (users s)"
    using assms(1,3)
  proof (cases rule: commit_updated_cases[where throws = throws])
    case same
    with assms(9,12) show ?thesis by simp
  next
    case (applied d)
    then show ?thesis by simp
  qed
  have second: "users (commit (processEvent throws a2) ?s1)
        = lww_apply ?c2 ?d2 (Suc (nextId ?s1)) (users ?s1)"
    if "events_by_eventId (ev_id (pe_event a2)) ?s1 = []"
    using wf1 assms(3)
  proof (cases rule: commit_updated_cases[where throws = throws])
    case same
    with that assms(13) show ?thesis by simp
  next
    case (applied d)
    then show ?thesis by simp
  qed
  have a: "users (commit (processEvent throws a2) ?s1) = users ?s2"
    using assms(1,2)
  proof (cases rule: commit_updated_cases[where throws = throws])
    case same
    then have "events_by_eventId (ev_id (pe_event a2)) ?s1 = []"
      using assms(9) by (simp add: events_by_eventId_def)
    from second[OF this] same(1,2) only show ?thesis by simp
  next
    case (applied d)
    then have "events_by_eventId (ev_id (pe_event a2)) ?s1 = []"
      using assms(8,9) by (simp add: events_by_eventId_def)
    from second[OF this] applied(3) only
      lww_apply_newer_after_older[OF assms(4,5,6,7) dom fl, of "Suc (nextId ?s1)" ?n]
    show ?thesis by simp
  qed
  have b: "users (commit (processEvent throws a1) ?s2) = users ?s2"
    using wf2 assms(2)
  proof (cases rule: commit_updated_cases[where throws = throws])
    case same
    then show ?thesis by simp
  next
    case (applied d)
    with only lww_apply_older_after_newer[OF assms(4,5,6,7) fl, of "Suc (nextId ?s2)" ?n]
    show ?thesis by simp
  qed
  from a b show ?thesis by (simp add: processEvents_def)
qed

lemma c2_merge:
  "map (\<lambda>u. data_props (ud_data u) ''firstName'')
     (users (processEvents handler_ok [pe upd_ann, pe upd_plain] store1)) = [Some (JStr ''Ann'')]
   \<and> map (\<lambda>u. data_props (ud_data u) ''firstName'')
     (users (processEvents handler_ok [pe upd_plain] store1)) = [None]"
  by (simp add: store1_eq processEvents_def pe_defs pe_def upd_ann_def upd_plain_def created1_def
      ev_def user1_def omit_def patch_payload_def handler_ok_def)

lemma c2_same_id:
  "map (\<lambda>u. data_updatedAt (ud_data u))
     (users (processEvents handler_ok [pe updated1, pe upd_dup] store1)) = [Some ''2024-01-02'']
   \<and> map (\<lambda>u. data_updatedAt (ud_data u))
     (users (processEvents handler_ok [pe upd_dup] store1)) = [Some ''2024-01-03'']"
  by (simp add: store1_eq processEvents_def pe_defs pe_def updated1_def upd_dup_def created1_def
      ev_def user1_def omit_def patch_payload_def handler_ok_def)

lemma c2_recorded:
  "map (\<lambda>u. data_updatedAt (ud_data u)) (users store2) = [Some ''2024-01-01'']
   \<and> map eventId (events store2) = [''event_06'', ''event_01'']
   \<and> map (\<lambda>u. data_updatedAt (ud_data u))
     (users (processEvents handler_ok [pe updated1, pe upd_plain] store2)) = [Some ''2024-01-02'']
   \<and> map (\<lambda>u. data_updatedAt (ud_data u))
     (users (processEvents handler_ok [pe upd_plain] store2)) = [Some ''2024-01-01'']"
  by (simp add: store2_def store0_def processEvents_def pe_defs pe_def updated1_def upd_plain_def created1_def
      ev_def user1_def omit_def patch_payload_def handler_ok_def)

text \<open>
  As C2 is worded it fails in three ways, one for each condition added above.
  The patch is a merge: the older update carries \<^verbatim>\<open>firstName\<close>, the newer one does not,
  and the name stays in the mirror when both are applied but is absent when only the
  newer one is. Two updates with one event id: the second is taken for a duplicate, so
  the older one wins when it comes first. And a newer update whose id is already
  recorded (it came before the user was created) changes nothing on its own, while the
  older one before it is applied.
\<close>

theorem last_writer_wins_counterexample:
  "(map (\<lambda>u. data_props (ud_data u) ''firstName'')
      (users (processEvents handler_ok [pe upd_ann, pe upd_plain] store1)) = [Some (JStr ''Ann'')]
    \<and> map (\<lambda>u. data_props (ud_data u) ''firstName'')
      (users (processEvents handler_ok [pe upd_plain] store1)) = [None])
   \<and> (map (\<lambda>u. data_updatedAt (ud_data u))
      (users (processEvents handler_ok [pe updated1, pe upd_dup] store1)) = [Some ''2024-01-02'']
    \<and> map (\<lambda>u. data_updatedAt (ud_data u))
      (users (processEvents handler_ok [pe upd_dup] store1)) = [Some ''2024-01-03''])
   \<and> (map (\<lambda>u. data_updatedAt (ud_data u)) (users store2) = [Some ''2024-01-01'']
    \<and> map eventId (events store2) = [''event_06'', ''event_01'']
    \<and> map (\<lambda>u. data_updatedAt (ud_data u))
      (users (processEvents handler_ok [pe updated1, pe upd_plain] store2)) = [Some ''2024-01-02'']
    \<and> map (\<lambda>u. data_updatedAt (ud_data u))
      (users (processEvents handler_ok [pe upd_plain] store2)) = [Some ''2024-01-01''])"
  using c2_merge c2_same_id c2_recorded by blast

theorem last_writer_wins_witness:
  "wf_store store1
   \<and> ev_event (pe_event (pe updated1)) = ''user.updated''
   \<and> ev_event (pe_event (pe upd_plain)) = ''user.updated''
   \<and> data_id (ev_data (pe_event (pe updated1))) = data_id (ev_data (pe_event (pe upd_plain)))
   \<and> data_updatedAt (ev_data (pe_event (pe updated1))) = Some ''2024-01-02''
   \<and> data_updatedAt (ev_data (pe_event (pe upd_plain))) = Some ''2024-01-03''
   \<and> ''2024-01-02'' < ''2024-01-03''
   \<and> ev_id (pe_event (pe updated1)) \<noteq> ev_id (pe_event (pe upd_plain))
   \<and> events_by_eventId (ev_id (pe_event (pe upd_plain))) store1 = []
   \<and> dom (data_props (ev_data (pe_event (pe updated1)))) - {''object''}
        \<subseteq> dom (data_props (ev_data (pe_event (pe upd_plain))))
   \<and> users_by_id ''user_01'' store1 \<noteq> []
   \<and> returns (processEvent handler_ok (pe upd_plain)) store1
   \<and> returns (processEvent handler_ok (pe upd_plain))
        (commit (processEvent handler_ok (pe updated1)) store1)
   \<and> users (processEvents handler_ok [pe updated1, pe upd_plain] store1)
        = users (processEvents handler_ok [pe upd_plain] store1)
   \<and> users (processEvents handler_ok [pe upd_plain, pe updated1] store1)
        = users (processEvents handler_ok [pe upd_plain] store1)
   \<and> map (\<lambda>u. data_updatedAt (ud_data u)) (users (processEvents handler_ok [pe upd_plain] store1))
        = [Some ''2024-01-03'']
   \<and> users_by_id ''user_01'' store0 = []
   \<and> users (processEvents handler_ok
          [(pe updated1)\<lparr>pe_createUserOnUpdate := Some True\<rparr>,
           (pe upd_plain)\<lparr>pe_createUserOnUpdate := Some True\<rparr>] store0)
        = users (processEvents handler_ok [(pe upd_plain)\<lparr>pe_createUserOnUpdate := Some True\<rparr>] store0)
   \<and> users (processEvents handler_ok
          [(pe upd_plain)\<lparr>pe_createUserOnUpdate := Some True\<rparr>,
           (pe updated1)\<lparr>pe_createUserOnUpdate := Some True\<rparr>] store0)
        = users (processEvents handler_ok [(pe upd_plain)\<lparr>pe_createUserOnUpdate := Some True\<rparr>] store0)
   \<and> users (processEvents handler_ok [(pe upd_plain)\<lparr>pe_createUserOnUpdate := Some True\<rparr>] store0)
        = [\<lparr>ud_id = 1, ud_data = omit (ev_data upd_plain) [''object'']\<rparr>]"
proof -
  let ?c1 = "(pe updated1)\<lparr>pe_createUserOnUpdate := Some True\<rparr>"
  let ?c2 = "(pe upd_plain)\<lparr>pe_createUserOnUpdate := Some True\<rparr>"
  have h0: "ev_event (pe_event ?c1) = ''user.updated''"
    "ev_event (pe_event ?c2) = ''user.updated''"
    "data_id (ev_data (pe_event ?c1)) = data_id (ev_data (pe_event ?c2))"
    "data_updatedAt (ev_data (pe_event ?c1)) = Some ''2024-01-02''"
    "data_updatedAt (ev_data (pe_event ?c2)) = Some ''2024-01-03''"
    "''2024-01-02'' < ''2024-01-03''"
    "ev_id (pe_event ?c1) \<noteq> ev_id (pe_event ?c2)"
    "events_by_eventId (ev_id (pe_event ?c2)) store0 = []"
    "dom (data_props (ev_data (pe_event ?c1))) - {''object''}
        \<subseteq> dom (data_props (ev_data (pe_event ?c2)))"
    "users_by_id (data_id (ev_data (pe_event ?c2))) store0 \<noteq> []
         \<or> (pe_createUserOnUpdate ?c1 = Some True \<longleftrightarrow> pe_createUserOnUpdate ?c2 = Some True)"
    by (simp_all add: pe_def updated1_def upd_plain_def ev_def user1_def store0_def
        events_by_eventId_def)
  have r0: "returns (processEvent handler_ok ?c2) store0"
    "returns (processEvent handler_ok ?c2) (commit (processEvent handler_ok ?c1) store0)"
    by (simp_all add: returns_def store0_def pe_defs pe_def updated1_def upd_plain_def
        ev_def user1_def handler_ok_def)
  have e0: "users_by_id ''user_01'' store0 = []"
    by (simp add: store0_def users_by_id_def)
  have v0: "users (processEvents handler_ok [?c2] store0)
        = [\<lparr>ud_id = 1, ud_data = omit (ev_data upd_plain) [''object'']\<rparr>]"
    by (simp add: store0_def processEvents_def pe_defs pe_def upd_plain_def
        ev_def user1_def handler_ok_def)
  note created = last_writer_wins[OF wf_store0 h0 r0] e0 v0
  have h: "ev_event (pe_event (pe updated1)) = ''user.updated''"
    "ev_event (pe_event (pe upd_plain)) = ''user.updated''"
    "data_id (ev_data (pe_event (pe updated1))) = data_id (ev_data (pe_event (pe upd_plain)))"
    "data_updatedAt (ev_data (pe_event (pe updated1))) = Some ''2024-01-02''"
    "data_updatedAt (ev_data (pe_event (pe upd_plain))) = Some ''2024-01-03''"
    "''2024-01-02'' < ''2024-01-03''"
    "ev_id (pe_event (pe updated1)) \<noteq> ev_id (pe_event (pe upd_plain))"
    "events_by_eventId (ev_id (pe_event (pe upd_plain))) store1 = []"
    "dom (data_props (ev_data (pe_event (pe updated1)))) - {''object''}
        \<subseteq> dom (data_props (ev_data (pe_event (pe upd_plain))))"
    by (simp_all add: pe_def updated1_def upd_plain_def ev_def user1_def store1_eq
        events_by_eventId_def)
  have e: "users_by_id ''user_01'' store1 \<noteq> []"
    by (simp add: store1_eq users_by_id_def created1_def ev_def user1_def)
  then have e': "users_by_id (data_id (ev_data (pe_event (pe upd_plain)))) store1 \<noteq> []
         \<or> (pe_createUserOnUpdate (pe updated1) = Some True
              \<longleftrightarrow> pe_createUserOnUpdate (pe upd_plain) = Some True)"
    by (simp add: pe_def)
  have r: "returns (processEvent handler_ok (pe upd_plain)) store1"
    "returns (processEvent handler_ok (pe upd_plain))
        (commit (processEvent handler_ok (pe updated1)) store1)"
    by (simp_all add: returns_def store1_eq pe_defs pe_def updated1_def upd_plain_def created1_def
        ev_def user1_def handler_ok_def)
  have v: "map (\<lambda>u. data_updatedAt (ud_data u)) (users (processEvents handler_ok [pe upd_plain] store1))
        = [Some ''2024-01-03'']"
    by (simp add: store1_eq processEvents_def pe_defs pe_def upd_plain_def created1_def
        ev_def user1_def patch_payload_def handler_ok_def)
  from last_writer_wins[OF wf_store1 h e' r] wf_store1 h e r v created show ?thesis by simp
qed

subsection \<open>The first run of the puller\<close>




lemma process_page_provenance:
  assumes "process_page throws args es s = (r, s')" "d \<in> set (events s')"
  shows "d \<in> set (events s) \<or> eventId d \<in> ev_id ` set es"
  using assms
proof (induction es arbitrary: s)
  case Nil
  then show ?case by simp
next
  case (Cons e es)
  let ?a = "\<lparr>pe_event = e, pe_logLevel = ue_logLevel args,
              pe_onEventHandle = ue_onEventHandle args,
              pe_createUserOnUpdate = ue_createUserOnUpdate args\<rparr>"
  show ?case
  proof (cases "processEvent throws ?a s")
    case (Inl x)
    obtain err s1 where x: "x = (err, s1)" by (cases x)
    from processEvent_Inl[OF Inl[unfolded x]] Cons.prems Inl x show ?thesis by simp
  next
    case (Inr s1)
    with Cons.prems(1) have "process_page throws args es s1 = (r, s')" by simp
    from Cons.IH[OF this Cons.prems(2)] processEvent_events[OF Inr] show ?thesis by auto
  qed
qed

lemma updateEvents_loop_provenance:
  assumes "updateEvents_loop throws listEvents types args fuel c rs s = Some (r, s')"
    "d \<in> set (events s')"
  shows "d \<in> set (events s)
       \<or> (\<exists>rq pg e. listEvents rq = Some pg \<and> e \<in> set (pg_data pg) \<and> ev_id e = eventId d)"
  using assms
proof (induction fuel arbitrary: c rs s)
  case 0
  then show ?case by simp
next
  case (Suc n)
  let ?rq = "\<lparr>rq_apiKey = ue_apiKey args, rq_events = types, rq_after = c, rq_rangeStart = rs\<rparr>"
  show ?case
  proof (cases "listEvents ?rq")
    case None
    with Suc.prems show ?thesis by (auto simp: Let_def send_def)
  next
    case (Some pg)
    obtain e s2 where pp: "process_page throws args (pg_data pg) (send ?rq s) = (e, s2)"
      by (cases "process_page throws args (pg_data pg) (send ?rq s)")
    have step: "x \<in> set (events s)
        \<or> (\<exists>rq pg e. listEvents rq = Some pg \<and> e \<in> set (pg_data pg) \<and> ev_id e = eventId x)"
      if "x \<in> set (events s2)" for x
    proof -
      from process_page_provenance[OF pp that]
      have "x \<in> set (events s) \<or> eventId x \<in> ev_id ` set (pg_data pg)"
        by (simp add: send_def)
      then show ?thesis
      proof
        assume "x \<in> set (events s)"
        then show ?thesis ..
      next
        assume "eventId x \<in> ev_id ` set (pg_data pg)"
        then obtain e where "e \<in> set (pg_data pg)" "ev_id e = eventId x" by auto
        with Some have "\<exists>rq pg e. listEvents rq = Some pg \<and> e \<in> set (pg_data pg)
            \<and> ev_id e = eventId x" by blast
        then show ?thesis ..
      qed
    qed
    show ?thesis
    proof (cases "e = None \<and> truthy_opt (pg_after pg)")
      case True
      with Suc.prems(1) Some pp
      have "updateEvents_loop throws listEvents types args n (pg_after pg) None s2 = Some (r, s')"
        by (simp add: Let_def)
      from Suc.IH[OF this Suc.prems(2)] step show ?thesis by auto
    next
      case False
      with Suc.prems(1) Some pp have "s' = s2"
        by (auto simp: Let_def split: option.splits if_splits)
      with step Suc.prems(2) show ?thesis by simp
    qed
  qed
qed

lemma updateEvents_provenance:
  assumes "updateEvents throws listEvents now fuel args s = Some (r, s')" "d \<in> set (events s')"
  shows "d \<in> set (events s)
       \<or> (\<exists>rq pg e. listEvents rq = Some pg \<and> e \<in> set (pg_data pg) \<and> ev_id e = eventId d)"
proof (cases "truthy_opt (getCursor s)")
  case True
  with assms(1) updateEvents_loop_provenance[OF _ assms(2)] show ?thesis
    by (simp add: updateEvents_def Let_def)
next
  case False
  show ?thesis
  proof (cases "time_clip (of_int now - 1000 * 60 * 60 *
                   (case ue_initialRangeHours args of None \<Rightarrow> 168 | Some x \<Rightarrow> x))")
    case None
    with False assms show ?thesis by (simp add: updateEvents_def Let_def)
  next
    case (Some rangeStart)
    with False assms(1) updateEvents_loop_provenance[OF _ assms(2)] show ?thesis
      by (simp add: updateEvents_def Let_def)
  qed
qed



lemmas ue_defs = updateEvents_def getCursor_def puller_args_def default_eventTypes_def send_def

lemma updateEvents_feed_old:
  "updateEvents handler_ok feed_old now1 1 puller_args store0 =
     Some (None,
       \<lparr>events = [\<lparr>ed_id = 0, ed_creationTime = 1, eventId = ''event_00'',
                   event = ''user.created'', updatedAt = Some ''1999-12-31''\<rparr>],
        users = [\<lparr>ud_id = 1, ud_data = omit (ev_data old_event) [''object'']\<rparr>],
        syncState = [], nextId = 2, clock = 2, console = [], handlerCalls = [],
        requests = [\<lparr>rq_apiKey = ''sk_test'',
                      rq_events = [''user.created'', ''user.updated'', ''user.deleted''],
                      rq_after = None, rq_rangeStart = Some week_before_now1\<rparr>]\<rparr>)"
  by (simp add: ue_defs now1_def week_before_now1_def time_clip_def to_integer_def store0_def
      feed_old_def old_event_def user1_def pe_defs)



subsection \<open>The trigger\<close>

text \<open>
  C9. Two calls of \<^verbatim>\<open>enqueueWebhookEvent\<close> that differ only in \<^verbatim>\<open>eventId\<close>, \<^verbatim>\<open>event\<close> and
  \<^verbatim>\<open>updatedAt\<close> leave the same store and the same pool, whatever the pool's operations
  do; the store is the one the call found, so nothing of the webhook's payload is applied.
  What the enqueued \<^verbatim>\<open>updateEvents\<close> records, it has from the feed: every document of the
  \<^verbatim>\<open>events\<close> table after a run was there before or carries the id of an event of a page
  the feed returns.
\<close>

theorem enqueueWebhookEvent_independent:
  assumes "wh_apiKey a = wh_apiKey b" "wh_onEventHandle a = wh_onEventHandle b"
    "wh_eventTypes a = wh_eventTypes b" "wh_logLevel a = wh_logLevel b"
    "wh_initialRangeHours a = wh_initialRangeHours b"
    "wh_createUserOnUpdate a = wh_createUserOnUpdate b"
  shows "enqueueWebhookEvent cancelAll enqueueAction a ctx
           = enqueueWebhookEvent cancelAll enqueueAction b ctx
         \<and> fst (enqueueWebhookEvent cancelAll enqueueAction a ctx) = fst ctx
         \<and> (updateEvents throws listEvents now fuel args s = Some (r, s') \<longrightarrow>
              d \<in> set (events s') \<longrightarrow>
              d \<in> set (events s)
              \<or> (\<exists>rq pg e. listEvents rq = Some pg \<and> e \<in> set (pg_data pg)
                     \<and> ev_id e = eventId d))"
  using assms updateEvents_provenance[of throws listEvents now fuel args s r s' d]
  by (simp add: enqueueWebhookEvent_def)

theorem enqueueWebhookEvent_independent_witness:
  "enqueueWebhookEvent (\<lambda>q. []) (\<lambda>w q. q @ [w])
      (webhook ''event_01'' ''user.created'' (Some ''2024-01-01'')) (store0, [])
   = enqueueWebhookEvent (\<lambda>q. []) (\<lambda>w q. q @ [w])
      (webhook ''event_02'' ''user.deleted'' None) (store0, [])
   \<and> enqueueWebhookEvent (\<lambda>q. []) (\<lambda>w q. q @ [w])
      (webhook ''event_01'' ''user.created'' (Some ''2024-01-01'')) (store0, [])
     = (store0, [\<lparr>ue_apiKey = ''sk_test'', ue_onEventHandle = Some ''handle'',
                  ue_eventTypes = None, ue_logLevel = None,
                  ue_initialRangeHours = None, ue_createUserOnUpdate = None\<rparr>])
   \<and> (\<exists>s'. updateEvents handler_ok feed_old now1 1 puller_args store0 = Some (None, s')
        \<and> events s' = [\<lparr>ed_id = 0, ed_creationTime = 1, eventId = ''event_00'',
                            event = ''user.created'', updatedAt = Some ''1999-12-31''\<rparr>])
   \<and> (\<exists>rq pg e. feed_old rq = Some pg \<and> e \<in> set (pg_data pg) \<and> ev_id e = ''event_00'')"
proof -
  let ?a = "webhook ''event_01'' ''user.created'' (Some ''2024-01-01'')"
  let ?b = "webhook ''event_02'' ''user.deleted'' None"
  let ?d = "\<lparr>ed_id = 0, ed_creationTime = 1, eventId = ''event_00'',
             event = ''user.created'', updatedAt = Some ''1999-12-31''\<rparr>"
  have eq: "wh_apiKey ?a = wh_apiKey ?b" "wh_onEventHandle ?a = wh_onEventHandle ?b"
    "wh_eventTypes ?a = wh_eventTypes ?b" "wh_logLevel ?a = wh_logLevel ?b"
    "wh_initialRangeHours ?a = wh_initialRangeHours ?b"
    "wh_createUserOnUpdate ?a = wh_createUserOnUpdate ?b"
    by (simp_all add: webhook_def)
  have w: "enqueueWebhookEvent (\<lambda>q. []) (\<lambda>w q. q @ [w]) ?a (store0, [])
     = (store0, [\<lparr>ue_apiKey = ''sk_test'', ue_onEventHandle = Some ''handle'',
                  ue_eventTypes = None, ue_logLevel = None,
                  ue_initialRangeHours = None, ue_createUserOnUpdate = None\<rparr>])"
    by (simp add: webhook_def enqueueWebhookEvent_def)
  note run = updateEvents_feed_old
  have "?d \<notin> set (events store0)" by (simp add: store0_def)
  with enqueueWebhookEvent_independent[OF eq, of "\<lambda>q. []" "\<lambda>w q. q @ [w]" "(store0, [])"
      handler_ok feed_old now1 1 puller_args store0 None _ ?d] run w
  show ?thesis by simp
qed

subsection \<open>The reconciler and its checkpoint\<close>

lemma backfill_page_frame:
  "backfill_page throws args m es v s = (r, v', s') \<Longrightarrow>
     syncState s' = syncState s \<and>
     (r = None \<longrightarrow> lastEventId v' = (if es = [] then lastEventId v else Some (ev_id (last es))))"
proof (induction es arbitrary: v s)
  case Nil
  then show ?case by simp
next
  case (Cons e es)
  show ?case
  proof (cases "ev_id e \<notin> set m")
    case True
    with Cons.prems have "backfill_page throws args m es
             (v\<lparr>skipped := Suc (skipped v), lastEventId := Some (ev_id e)\<rparr>) s = (r, v', s')"
      by simp
    from Cons.IH[OF this] show ?thesis by simp
  next
    case False
    let ?a = "\<lparr>pe_event = e, pe_logLevel = bf_logLevel args,
               pe_onEventHandle = bf_onEventHandle args, pe_createUserOnUpdate = None\<rparr>"
    show ?thesis
    proof (cases "processEvent throws ?a s")
      case (Inl x)
      obtain err s1 where x: "x = (err, s1)" by (cases x)
      from processEvent_Inl[OF Inl[unfolded x]] False Cons.prems Inl x show ?thesis by auto
    next
      case (Inr s1)
      with False Cons.prems have "backfill_page throws args m es
                 (v\<lparr>lastEventId := Some (ev_id e), processed := Suc (processed v)\<rparr>) s1 = (r, v', s')"
        by simp
      from Cons.IH[OF this] processEvent_frame[OF Inr] show ?thesis by simp
    qed
  qed
qed

lemma backfill_loop_walk:
  "backfill_loop throws listEvents types args t fuel c v s = Some (r, v', s') \<Longrightarrow>
     syncState s' = syncState s \<and>
     (r = None \<longrightarrow>
        (\<exists>evs. feed_walk listEvents (bf_apiKey args) types fuel c = Some evs \<and>
           lastEventId v' = (if evs = [] then lastEventId v else Some (ev_id (last evs)))))"
proof (induction fuel arbitrary: c v s)
  case 0
  then show ?case by simp
next
  case (Suc n)
  let ?rq = "\<lparr>rq_apiKey = bf_apiKey args, rq_events = types, rq_after = c, rq_rangeStart = None\<rparr>"
  show ?case
  proof (cases "listEvents ?rq")
    case None
    with Suc.prems show ?thesis by (auto simp: Let_def send_def)
  next
    case (Some pg)
    show ?thesis
    proof (cases "pg_data pg = []")
      case True
      with Some Suc.prems show ?thesis by (auto simp: Let_def send_def)
    next
      case False
      let ?m = "getMissingEventIds (map ev_id (pg_data pg)) (Some t) (send ?rq s)"
      define s2 where "s2 = (if bf_logLevel args = Some DEBUG
                         then print LOG
                                [Txt ''Batch: '', Num (length (pg_data pg)), Txt '' events, '',
                                 Num (length (remdups ?m)), Txt '' missing''] (send ?rq s)
                         else send ?rq s)"
      have s2: "syncState s2 = syncState s" by (simp add: s2_def send_def)
      obtain e v1 s3 where bp: "backfill_page throws args ?m (pg_data pg) v s2 = (e, v1, s3)"
        by (cases "backfill_page throws args ?m (pg_data pg) v s2") auto
      from backfill_page_frame[OF bp] False s2
      have f: "syncState s3 = syncState s" "e = None \<longrightarrow> lastEventId v1 = Some (ev_id (last (pg_data pg)))"
        by simp_all
      show ?thesis
      proof (cases "e = None \<and> (\<exists>c'. pg_after pg = Some c' \<and> truthy c')")
        case True
        then obtain c' where c': "pg_after pg = Some c'" "truthy c'" "e = None" by blast
        with Suc.prems Some False bp
        have lp: "backfill_loop throws listEvents types args t n (Some c') v1 s3 = Some (r, v', s')"
          by (simp add: Let_def s2_def[symmetric])
        from Suc.IH[OF lp] f have st: "syncState s' = syncState s" by simp
        have "\<exists>evs. feed_walk listEvents (bf_apiKey args) types (Suc n) c = Some evs \<and>
           lastEventId v' = (if evs = [] then lastEventId v else Some (ev_id (last evs)))"
          if "r = None"
        proof -
          from Suc.IH[OF lp] that
          obtain evs' where evs': "feed_walk listEvents (bf_apiKey args) types n (Some c') = Some evs'"
            "lastEventId v' = (if evs' = [] then lastEventId v1 else Some (ev_id (last evs')))"
            by blast
          from evs'(1) Some False c' have "feed_walk listEvents (bf_apiKey args) types (Suc n) c
              = Some (pg_data pg @ evs')" by simp
          moreover from evs'(2) f(2) c'(3) False
          have "lastEventId v' = (if pg_data pg @ evs' = [] then lastEventId v
                 else Some (ev_id (last (pg_data pg @ evs'))))" by simp
          ultimately show ?thesis by blast
        qed
        with st show ?thesis by blast
      next
        case False2: False
        with Suc.prems Some False bp f show ?thesis
          by (auto simp: Let_def s2_def[symmetric] split: option.splits if_splits)
      qed
    qed
  qed
qed

lemma feed_walk_pages:
  "feed_walk listEvents k types fuel c = Some evs \<Longrightarrow> e \<in> set evs \<Longrightarrow>
     \<exists>rq pg. listEvents rq = Some pg \<and> e \<in> set (pg_data pg)"
proof (induction fuel arbitrary: c evs)
  case 0
  then show ?case by simp
next
  case (Suc n)
  let ?rq = "\<lparr>rq_apiKey = k, rq_events = types, rq_after = c, rq_rangeStart = None\<rparr>"
  from Suc.prems(1) obtain pg where pg: "listEvents ?rq = Some pg"
    by (cases "listEvents ?rq") simp_all
  show ?case
  proof (cases "pg_data pg \<noteq> [] \<and> (\<exists>c'. pg_after pg = Some c' \<and> truthy c')")
    case True
    then obtain c' where c': "pg_data pg \<noteq> []" "pg_after pg = Some c'" "truthy c'" by blast
    with Suc.prems(1) pg obtain evs' where evs': "feed_walk listEvents k types n (Some c') = Some evs'"
      "evs = pg_data pg @ evs'" by auto
    with Suc.prems(2) have "e \<in> set (pg_data pg) \<or> e \<in> set evs'" by simp
    then show ?thesis
    proof
      assume "e \<in> set (pg_data pg)"
      with pg show ?thesis by blast
    next
      assume "e \<in> set evs'"
      from Suc.IH[OF evs'(1) this] show ?thesis .
    qed
  next
    case False
    with Suc.prems pg have "e \<in> set (pg_data pg)"
      by (auto split: option.splits if_splits)
    with pg show ?thesis by blast
  qed
qed

lemma filter_map_same_key:
  assumes "\<And>d. sd_key (f d) = sd_key d"
  shows "filter (\<lambda>d. sd_key d = k) (map f xs) = map f (filter (\<lambda>d. sd_key d = k) xs)"
  using assms by (induction xs) auto

lemma updateLastCheckpointedEventId_row:
  assumes "updateLastCheckpointedEventId i s = Inr s'"
  shows "\<exists>d. syncState_by_key ''lastCheckpointedEventId'' s' = [d] \<and> sd_value d = i"
proof (cases "syncState_by_key ''lastCheckpointedEventId'' s" rule: unique.cases)
  case 1
  with assms show ?thesis
    by (auto simp: updateLastCheckpointedEventId_def insert_syncState_def syncState_by_key_def)
next
  case (2 x)
  have "filter (\<lambda>d. sd_key d = ''lastCheckpointedEventId'')
     (map (\<lambda>d. if sd_id d = sd_id x then d\<lparr>sd_value := i\<rparr> else d) (syncState s))
     = map (\<lambda>d. if sd_id d = sd_id x then d\<lparr>sd_value := i\<rparr> else d)
         (filter (\<lambda>d. sd_key d = ''lastCheckpointedEventId'') (syncState s))"
    by (rule filter_map_same_key) simp
  with 2 have "filter (\<lambda>d. sd_key d = ''lastCheckpointedEventId'')
     (map (\<lambda>d. if sd_id d = sd_id x then d\<lparr>sd_value := i\<rparr> else d) (syncState s))
     = [x\<lparr>sd_value := i\<rparr>]"
    by (simp add: syncState_by_key_def)
  with 2 assms show ?thesis
    by (auto simp: updateLastCheckpointedEventId_def patch_syncState_def syncState_by_key_def)
next
  case (3 x y zs)
  with assms show ?thesis by (simp add: updateLastCheckpointedEventId_def)
qed

text \<open>
  What a run of \<^verbatim>\<open>backfillEvents\<close> that returns has done, with the test the code makes
  on \<^verbatim>\<open>lastEventId\<close>.
\<close>

lemma backfillEvents_returns:
  assumes "backfillEvents throws listEvents fuel args s = Some (Inr r, s')"
  shows "\<exists>evs c. getLastCheckpointedEvent s = Inr c
     \<and> feed_walk listEvents (bf_apiKey args) (default_eventTypes (bf_eventTypes args)) fuel
          (map_option fst c) = Some evs
     \<and> lastEventId r = (if evs = [] then None else Some (ev_id (last evs)))
     \<and> (if evs \<noteq> [] \<and> truthy (ev_id (last evs))
        then \<exists>d. syncState_by_key ''lastCheckpointedEventId'' s' = [d]
                  \<and> sd_value d = ev_id (last evs)
        else syncState s' = syncState s)"
proof -
  from assms obtain c where c: "getLastCheckpointedEvent s = Inr c"
    by (cases "getLastCheckpointedEvent s") (auto simp: backfillEvents_def)
  define types where "types = default_eventTypes (bf_eventTypes args)"
  define t where "t = (case c of None \<Rightarrow> 0 | Some c \<Rightarrow> snd c)"
  define s0 where "s0 = (if bf_logLevel args = Some DEBUG
                    then print LOG [Txt ''Event types:'', Strs types]
                           (print LOG
                              [Txt (''Starting backfill, lastVerifiedEventId: '' @
                                 (case map_option fst c of
                                    None \<Rightarrow> ''none (full scan)'' | Some i \<Rightarrow> i))] s)
                    else s)"
  have s0: "syncState s0 = syncState s" by (simp add: s0_def)
  from assms c obtain v s1 where
    loop: "backfill_loop throws listEvents types args t fuel (map_option fst c)
             \<lparr>processed = 0, skipped = 0, lastEventId = None\<rparr> s0 = Some (None, v, s1)"
    and fin: "\<exists>s2. (case lastEventId v of None \<Rightarrow> Inr s1
               | Some i \<Rightarrow> if truthy i then updateLastCheckpointedEventId i s1 else Inr s1) = Inr s2
               \<and> syncState s' = syncState s2"
       "r = v"
    by (auto simp: backfillEvents_def Let_def types_def[symmetric] t_def[symmetric] s0_def[symmetric]
        split: option.splits sum.splits if_splits prod.splits)
  from backfill_loop_walk[OF loop] s0 obtain evs where
    w: "syncState s1 = syncState s"
      "feed_walk listEvents (bf_apiKey args) types fuel (map_option fst c) = Some evs"
      "lastEventId v = (if evs = [] then None else Some (ev_id (last evs)))"
    by auto
  show ?thesis
  proof (cases "evs \<noteq> [] \<and> truthy (ev_id (last evs))")
    case True
    with w(3) fin obtain s2 where s2: "updateLastCheckpointedEventId (ev_id (last evs)) s1 = Inr s2"
      "syncState s' = syncState s2"
      by auto
    from updateLastCheckpointedEventId_row[OF s2(1)] s2(2) True c w fin(2) show ?thesis
      by (auto simp: types_def syncState_by_key_def)
  next
    case False
    with w fin c show ?thesis
      by (auto simp: types_def split: if_splits)
  qed
qed

text \<open>
  C6. The feed gives every event a non-empty id. When a run of \<^verbatim>\<open>backfillEvents\<close>
  returns, the \<^verbatim>\<open>lastEventId\<close> it returns is the id of the last event of its walk of the
  feed, or \<^verbatim>\<open>null\<close> when the walk saw no event; the checkpoint row holds the id of the last
  event when the walk saw one, and the \<^verbatim>\<open>syncState\<close> table is as it was when it saw none.
\<close>

theorem backfillEvents_checkpoint:
  assumes "backfillEvents throws listEvents fuel args s = Some (Inr r, s')"
    and "\<forall>rq pg. listEvents rq = Some pg \<longrightarrow> (\<forall>e \<in> set (pg_data pg). ev_id e \<noteq> [])"
  shows "\<exists>evs c. getLastCheckpointedEvent s = Inr c
     \<and> feed_walk listEvents (bf_apiKey args) (default_eventTypes (bf_eventTypes args)) fuel
          (map_option fst c) = Some evs
     \<and> lastEventId r = (if evs = [] then None else Some (ev_id (last evs)))
     \<and> (if evs \<noteq> []
        then \<exists>d. syncState_by_key ''lastCheckpointedEventId'' s' = [d]
                  \<and> sd_value d = ev_id (last evs)
        else syncState s' = syncState s)"
proof -
  from backfillEvents_returns[OF assms(1)] obtain evs c where
    r: "getLastCheckpointedEvent s = Inr c"
      "feed_walk listEvents (bf_apiKey args) (default_eventTypes (bf_eventTypes args)) fuel
          (map_option fst c) = Some evs"
      "lastEventId r = (if evs = [] then None else Some (ev_id (last evs)))"
      "if evs \<noteq> [] \<and> truthy (ev_id (last evs))
        then \<exists>d. syncState_by_key ''lastCheckpointedEventId'' s' = [d]
                  \<and> sd_value d = ev_id (last evs)
        else syncState s' = syncState s"
    by blast
  have "truthy (ev_id (last evs))" if "evs \<noteq> []"
  proof -
    from that have "last evs \<in> set evs" by simp
    from feed_walk_pages[OF r(2) this] assms(2) show ?thesis by (auto simp: truthy_def)
  qed
  with r show ?thesis by (cases "evs = []") auto
qed

lemmas bf_defs = backfillEvents_def getLastCheckpointedEvent_def syncState_by_key_def
  default_eventTypes_def send_def getMissingEventIds_def updateLastCheckpointedEventId_def
  insert_syncState_def patch_syncState_def feed_of_def after_cursor_def backfill_args_def
  checkpoint_time_def

lemma run_backfill_created1:
  "backfillEvents handler_ok (feed_of [created1]) 1 (backfill_args None) store0
     = Some (Inr \<lparr>processed = 1, skipped = 0, lastEventId = Some ''event_01''\<rparr>,
         \<lparr>events = [\<lparr>ed_id = 0, ed_creationTime = 1, eventId = ''event_01'',
                       event = ''user.created'', updatedAt = Some ''2024-01-01''\<rparr>],
          users = [\<lparr>ud_id = 1, ud_data = omit (ev_data created1) [''object'']\<rparr>],
          syncState = [\<lparr>sd_id = 2, sd_key = ''lastCheckpointedEventId'', sd_value = ''event_01''\<rparr>],
          nextId = 3, clock = 2, console = [], handlerCalls = [],
          requests = [\<lparr>rq_apiKey = ''sk_test'',
                        rq_events = [''user.created'', ''user.updated'', ''user.deleted''],
                        rq_after = None, rq_rangeStart = None\<rparr>]\<rparr>)"
  by (simp add: bf_defs store0_def created1_def ev_def user1_def pe_defs handler_ok_def)

lemma run_backfill_none:
  "backfillEvents handler_ok (feed_of []) 1 (backfill_args None) store0
     = Some (Inr \<lparr>processed = 0, skipped = 0, lastEventId = None\<rparr>,
         store0\<lparr>requests := [\<lparr>rq_apiKey = ''sk_test'',
                        rq_events = [''user.created'', ''user.updated'', ''user.deleted''],
                        rq_after = None, rq_rangeStart = None\<rparr>]\<rparr>)"
  by (simp add: bf_defs store0_def pe_defs)

lemma feed_of_ids:
  "\<forall>rq pg. feed_of [created1] rq = Some pg \<longrightarrow> (\<forall>e \<in> set (pg_data pg). ev_id e \<noteq> [])"
  "\<forall>rq pg. feed_of [] rq = Some pg \<longrightarrow> (\<forall>e \<in> set (pg_data pg). ev_id e \<noteq> [])"
  by (auto simp: feed_of_def after_cursor_def created1_def ev_def split: option.splits if_splits)

theorem backfillEvents_checkpoint_witness:
  "(\<exists>r s' d.
          backfillEvents handler_ok (feed_of [created1]) 1 (backfill_args None) store0
            = Some (Inr r, s')
          \<and> feed_walk (feed_of [created1]) ''sk_test''
               [''user.created'', ''user.updated'', ''user.deleted''] 1 None = Some [created1]
          \<and> lastEventId r = Some ''event_01''
          \<and> syncState_by_key ''lastCheckpointedEventId'' s' = [d] \<and> sd_value d = ''event_01'')
   \<and> (\<exists>r s'.
          backfillEvents handler_ok (feed_of []) 1 (backfill_args None) store0 = Some (Inr r, s')
          \<and> feed_walk (feed_of []) ''sk_test''
               [''user.created'', ''user.updated'', ''user.deleted''] 1 None = Some []
          \<and> lastEventId r = None
          \<and> syncState s' = syncState store0)"
proof -
  have g: "getLastCheckpointedEvent store0 = Inr None"
    by (simp add: bf_defs store0_def)
  have w1: "feed_walk (feed_of [created1]) ''sk_test''
               [''user.created'', ''user.updated'', ''user.deleted''] 1 None = Some [created1]"
    by (simp add: feed_of_def after_cursor_def created1_def ev_def)
  have w0: "feed_walk (feed_of []) ''sk_test''
               [''user.created'', ''user.updated'', ''user.deleted''] 1 None = Some []"
    by (simp add: feed_of_def after_cursor_def)
  from backfillEvents_checkpoint[OF run_backfill_created1 feed_of_ids(1)] g w1
  obtain d where "syncState_by_key ''lastCheckpointedEventId''
         \<lparr>events = [\<lparr>ed_id = 0, ed_creationTime = 1, eventId = ''event_01'',
                       event = ''user.created'', updatedAt = Some ''2024-01-01''\<rparr>],
          users = [\<lparr>ud_id = 1, ud_data = omit (ev_data created1) [''object'']\<rparr>],
          syncState = [\<lparr>sd_id = 2, sd_key = ''lastCheckpointedEventId'', sd_value = ''event_01''\<rparr>],
          nextId = 3, clock = 2, console = [], handlerCalls = [],
          requests = [\<lparr>rq_apiKey = ''sk_test'',
                        rq_events = [''user.created'', ''user.updated'', ''user.deleted''],
                        rq_after = None, rq_rangeStart = None\<rparr>]\<rparr> = [d]"
      "sd_value d = ''event_01''"
    by (auto simp: backfill_args_def default_eventTypes_def created1_def ev_def)
  with run_backfill_created1 w1 have one: "\<exists>r s' d.
          backfillEvents handler_ok (feed_of [created1]) 1 (backfill_args None) store0
            = Some (Inr r, s')
          \<and> feed_walk (feed_of [created1]) ''sk_test''
               [''user.created'', ''user.updated'', ''user.deleted''] 1 None = Some [created1]
          \<and> lastEventId r = Some ''event_01''
          \<and> syncState_by_key ''lastCheckpointedEventId'' s' = [d] \<and> sd_value d = ''event_01''"
    by simp
  from backfillEvents_checkpoint[OF run_backfill_none feed_of_ids(2)] g w0
  have "syncState (store0\<lparr>requests := [\<lparr>rq_apiKey = ''sk_test'',
                        rq_events = [''user.created'', ''user.updated'', ''user.deleted''],
                        rq_after = None, rq_rangeStart = None\<rparr>]\<rparr>) = syncState store0"
    by (auto simp: backfill_args_def default_eventTypes_def)
  with run_backfill_none w0 have two: "\<exists>r s'.
          backfillEvents handler_ok (feed_of []) 1 (backfill_args None) store0 = Some (Inr r, s')
          \<and> feed_walk (feed_of []) ''sk_test''
               [''user.created'', ''user.updated'', ''user.deleted''] 1 None = Some []
          \<and> lastEventId r = None
          \<and> syncState s' = syncState store0"
    by simp
  from one two show ?thesis by blast
qed

subsection \<open>The time the checkpoint refers to\<close>

lemma run_puller_c:
  "updateEvents handler_ok (feed_of [org_b, org_c]) now1 1
      (puller_args\<lparr>ue_eventTypes := Some [''organization.updated'']\<rparr>) store0
     = Some (None, store_c)"
  by (simp add: ue_defs now1_def week_before_now1_def time_clip_def to_integer_def store0_def
      feed_of_def after_cursor_def org_b_def org_c_def ev_def pe_defs store_c_def)

lemma run_backfill_b:
  "backfillEvents handler_ok (feed_of [org_b, org_c]) 1
      (backfill_args (Some [''organization.created''])) store_c
     = Some (Inr \<lparr>processed = 1, skipped = 0, lastEventId = Some ''event_b''\<rparr>, store_cb)"
  by (simp add: bf_defs store_c_def store_cb_def org_b_def org_c_def ev_def pe_defs)

lemma run_backfill_c:
  "backfillEvents handler_ok (feed_of [org_b, org_c]) 1
      (backfill_args (Some [''organization.updated''])) store_cb
     = Some (Inr \<lparr>processed = 1, skipped = 0, lastEventId = Some ''event_c''\<rparr>, store_cbc)"
  by (simp add: bf_defs store_cb_def store_cbc_def org_b_def org_c_def ev_def pe_defs)

lemma times_cb: "checkpoint_time store_c = 0" "checkpoint_time store_cb = 2"
  "checkpoint_time store_cbc = 1"
  by (simp_all add: bf_defs store_c_def store_cb_def store_cbc_def events_by_eventId_def)

lemma missing_c:
  "getMissingEventIds [''event_c''] (Some 2) store_cb = [''event_c'']"
  "events_by_eventId ''event_c'' store_cb \<noteq> []"
  by (simp_all add: getMissingEventIds_def store_cb_def events_by_eventId_def)

text \<open>
  C7 at a concrete run: the time the checkpoint refers to decreases. The feed holds
  \<^verbatim>\<open>event_b\<close> and then \<^verbatim>\<open>event_c\<close>, of two types outside the three user types. The
  puller, asked for the second type, records \<^verbatim>\<open>event_c\<close> at time 1. A reconciler run
  asked for the first type records \<^verbatim>\<open>event_b\<close> at time 2 and checkpoints it. A reconciler
  run asked for the second type then walks from \<^verbatim>\<open>event_b\<close> and ends on \<^verbatim>\<open>event_c\<close>:
  \<^verbatim>\<open>getMissingEventIds\<close>, which looks only at the events created after time 2, reports
  \<^verbatim>\<open>event_c\<close> as missing although it is recorded, the run checkpoints it, and the time
  referred to falls from 2 to 1.
\<close>

theorem checkpoint_time_decreases:
  "updateEvents handler_ok (feed_of [org_b, org_c]) now1 1
      (puller_args\<lparr>ue_eventTypes := Some [''organization.updated'']\<rparr>) store0
     = Some (None, store_c)
   \<and> backfillEvents handler_ok (feed_of [org_b, org_c]) 1
        (backfill_args (Some [''organization.created''])) store_c
     = Some (Inr \<lparr>processed = 1, skipped = 0, lastEventId = Some ''event_b''\<rparr>, store_cb)
   \<and> checkpoint_time store_cb = 2
   \<and> events_by_eventId ''event_c'' store_cb \<noteq> []
   \<and> getMissingEventIds [''event_c''] (Some 2) store_cb = [''event_c'']
   \<and> backfillEvents handler_ok (feed_of [org_b, org_c]) 1
        (backfill_args (Some [''organization.updated''])) store_cb
     = Some (Inr \<lparr>processed = 1, skipped = 0, lastEventId = Some ''event_c''\<rparr>, store_cbc)
   \<and> checkpoint_time store_cbc = 1"
  using run_puller_c run_backfill_b run_backfill_c times_cb missing_c by simp

end
